theory Spec2Isabelle
  imports Complex_Main "HOL-Library.Sublist"
begin

section \<open>Guides and choosers of the tree-guide header\<close>

text \<open>
  The header defines three guides (BFS, Default, weighted sampler) and their
  choosers.  Their nodes live on the C++ heap and are linked by raw pointers
  (\<^verbatim>\<open>Parent\<close>, the frontier queue, the sampler's trail), so the embedding
  keeps an explicit store: a list of nodes, an address being an index into it,
  and \<^verbatim>\<open>new\<close> appending a cell.  A null pointer is \<open>None\<close>.

  Conventions of the embedding.
  \<^item> \<^verbatim>\<open>long\<close> values are unbounded integers; the one narrowing conversion
    of the source (\<^verbatim>\<open>long\<close> to \<^verbatim>\<open>int\<close> in \<^verbatim>\<open>choose\<close>) is written out.
  \<^item> \<^verbatim>\<open>assert\<close> aborts the program (assertions enabled), \<^verbatim>\<open>exit(-1)\<close>
    ends it, \<^verbatim>\<open>vector::at\<close> throws: each is an \<open>Inl\<close> result.  Undefined
    behaviour of the language (reading out of bounds with \<^verbatim>\<open>operator[]\<close>,
    following a null or dangling pointer, calling a distribution outside its
    precondition) is an \<open>Inl\<close> result as well: the model says nothing beyond it.
  \<^item> \<^verbatim>\<open>double\<close> arithmetic is exact arithmetic on the reals; a division by
    zero leaves the finite values and is an \<open>Inl\<close> result.
  \<^item> The pseudo-random generator and the two distributions of the standard
    library are parameters of the model (a record of functions on an abstract
    generator state), constrained only by the result ranges the C++ standard
    gives them.
  \<^item> Debug tracing and the progress message of \<^verbatim>\<open>makeChooser\<close> are output
    only and are left out.
\<close>

datatype error =
    AssertFailed
  | ExitCalled
  | OutOfRange
  | LengthError
  | UndefinedBehaviour
  | NotFinite

type_synonym addr = nat

subsection \<open>The standard library: generator and distributions\<close>

record 'r stdlib =
  mt19937_64 :: "int \<Rightarrow> 'r"
  uniform_int :: "int \<Rightarrow> int \<Rightarrow> 'r \<Rightarrow> int \<times> 'r"
  discrete :: "real list \<Rightarrow> 'r \<Rightarrow> nat \<times> 'r"

text \<open>
  What the C++ standard promises of the two distributions: a
  \<^verbatim>\<open>uniform_int_distribution(a, b)\<close> with \<open>a \<le> b\<close> produces a value of
  \<open>[a, b]\<close>, and a \<^verbatim>\<open>discrete_distribution\<close> with \<open>n\<close> probabilities
  produces an index below \<open>n\<close>.
\<close>

definition lib_ok :: "'r stdlib \<Rightarrow> bool" where
  "lib_ok L \<longleftrightarrow>
     (\<forall>a b r. a \<le> b \<longrightarrow> a \<le> fst (uniform_int L a b r) \<and> fst (uniform_int L a b r) \<le> b) \<and>
     (\<forall>ps r. ps \<noteq> [] \<longrightarrow> fst (discrete L ps r) < length ps)"

text \<open>A concrete library for evaluation: the generator state is a counter.\<close>

definition counter_lib :: "nat stdlib" where
  "counter_lib =
     \<lparr> mt19937_64 = (\<lambda>seed. nat \<bar>seed\<bar>),
       uniform_int = (\<lambda>a b r. (a + int r mod (b - a + 1), Suc r)),
       discrete = (\<lambda>ps r. (r mod length ps, Suc r)) \<rparr>"

text \<open>
  \<^verbatim>\<open>std::discrete_distribution\<close>, by its probabilities.  The C++ standard
  ([rand.dist.samp.discrete]) fixes them: the default constructor, and the
  range constructor on an empty range, give \<open>n = 1\<close> and \<open>p0 = 1\<close>; on weights
  \<open>w\<close> of sum \<open>S\<close> the probabilities are \<open>w k / S\<close>, and the weights must be
  non-negative with \<open>0 < S\<close>.  \<^verbatim>\<open>probabilities()\<close> returns a vector of size
  \<open>n\<close>, so it is never empty.
\<close>

datatype discrete_distribution = DiscreteDistribution (probabilities: "real list")

definition discrete_distribution_default :: discrete_distribution where
  "discrete_distribution_default = DiscreteDistribution [1]"

definition discrete_distribution_of :: "real list \<Rightarrow> error + discrete_distribution" where
  "discrete_distribution_of ws =
     (if ws = [] then Inr discrete_distribution_default
      else if list_ex (\<lambda>w. w < 0) ws \<or> sum_list ws \<le> 0 then Inl UndefinedBehaviour
      else Inr (DiscreteDistribution (map (\<lambda>w. w / sum_list ws) ws)))"

definition uniform_int_distribution ::
  "'r stdlib \<Rightarrow> int \<Rightarrow> int \<Rightarrow> 'r \<Rightarrow> error + int \<times> 'r" where
  "uniform_int_distribution L a b r =
     (if a \<le> b then Inr (uniform_int L a b r) else Inl UndefinedBehaviour)"

definition discrete_draw ::
  "'r stdlib \<Rightarrow> discrete_distribution \<Rightarrow> 'r \<Rightarrow> int \<times> 'r" where
  "discrete_draw L d r = (case discrete L (probabilities d) r of (k, r') \<Rightarrow> (int k, r'))"

definition LONG_MIN :: int where "LONG_MIN = - (2 ^ 63)"
definition LONG_MAX :: int where "LONG_MAX = 2 ^ 63 - 1"

text \<open>Conversion of a \<^verbatim>\<open>long\<close> to the 32-bit \<^verbatim>\<open>int\<close>.\<close>

definition to_int :: "int \<Rightarrow> int" where
  "to_int x = (x + 2 ^ 31) mod 2 ^ 32 - 2 ^ 31"

text \<open>\<^verbatim>\<open>vector::at\<close> with a \<^verbatim>\<open>long\<close> index.\<close>

definition vector_at :: "'a list \<Rightarrow> int \<Rightarrow> error + 'a" where
  "vector_at xs i = (if 0 \<le> i \<and> i < int (length xs) then Inr (xs ! nat i) else Inl OutOfRange)"

subsection \<open>The frontier queue\<close>

text \<open>
  Modelled from the spec: the header \<^verbatim>\<open>priq.h\<close> (class \<^verbatim>\<open>PriQ\<close>) is
  included by the source but is not part of it.  The spec gives
  \<^verbatim>\<open>insert(node, level)\<close> and \<^verbatim>\<open>removeHead() -> (node?, level)\<close>, removed
  items coming out in non-decreasing level and first-in first-out within a
  level.  The queue is kept as the list of its entries in removal order.  The
  level returned with an absent node is not specified; \<^verbatim>\<open>makeChooser\<close> does
  not read it.
\<close>

type_synonym PriQ = "(addr \<times> int) list"

fun PriQ_insert :: "addr \<Rightarrow> int \<Rightarrow> PriQ \<Rightarrow> PriQ" where
  "PriQ_insert n l [] = [(n, l)]"
| "PriQ_insert n l ((m, k) # q) =
     (if k \<le> l then (m, k) # PriQ_insert n l q else (n, l) # (m, k) # q)"

definition removeHead :: "PriQ \<Rightarrow> (addr option \<times> int) \<times> PriQ" where
  "removeHead q = (case q of [] \<Rightarrow> ((None, 0), []) | (n, l) # q' \<Rightarrow> ((Some n, l), q'))"

subsection \<open>The BFS guide\<close>

record BNode =
  Parent :: "addr option"
  Children :: "addr option list"

record 'r BFSGuide =
  TotalNodes :: int
  Root :: addr
  Heap :: "BNode list"
  PendingPaths :: PriQ
  MaxSavedLevel :: int
  Choosing :: bool
  Started :: bool
  Rand :: 'r

record BFSChooser =
  Current :: addr
  LastChoice :: int
  Level :: int
  SavedChoices :: "int list"

text \<open>
  \<^verbatim>\<open>BFSGuide(long Seed)\<close>: the root is a value-initialised node (null parent)
  with one child slot; \<^verbatim>\<open>TotalNodes\<close> starts at 0.
\<close>

definition BFSGuide_new :: "'r stdlib \<Rightarrow> int \<Rightarrow> 'r BFSGuide" where
  "BFSGuide_new L Seed =
     \<lparr> TotalNodes = 0, Root = 0,
       Heap = [\<lparr> Parent = None, Children = [None] \<rparr>],
       PendingPaths = [], MaxSavedLevel = - 1,
       Choosing = False, Started = False,
       Rand = mt19937_64 L Seed \<rparr>"

definition BFSChooser_new :: "'r BFSGuide \<Rightarrow> BFSChooser" where
  "BFSChooser_new g = \<lparr> Current = Root g, LastChoice = 0, Level = 0, SavedChoices = [] \<rparr>"

text \<open>
  The two scans of \<^verbatim>\<open>makeChooser\<close>.  Above the target node the scan stops
  at the first slot holding \<^verbatim>\<open>N2\<close>; at the target node it runs over every
  slot, counting the null ones and overwriting \<^verbatim>\<open>Next\<close> at each.
\<close>

fun find_child :: "addr option list \<Rightarrow> int \<Rightarrow> addr \<Rightarrow> int" where
  "find_child [] i n2 = - 1"
| "find_child (c # cs) i n2 = (if c = Some n2 then i else find_child cs (i + 1) n2)"

fun find_untaken :: "addr option list \<Rightarrow> int \<Rightarrow> int \<times> int \<Rightarrow> int \<times> int" where
  "find_untaken [] i acc = acc"
| "find_untaken (c # cs) i (NumUntaken, Next) =
     find_untaken cs (i + 1) (if c = None then (NumUntaken + 1, i) else (NumUntaken, Next))"

text \<open>
  The body of the \<^verbatim>\<open>do ... while\<close> loop of \<^verbatim>\<open>makeChooser\<close> up to
  \<^verbatim>\<open>assert(Next != -1)\<close>: the choice to save at node \<open>N\<close> and the queue
  after it.  \<open>N2\<close> is the node the walk came from, null at the target node.
\<close>

definition loop_body ::
  "BNode list \<Rightarrow> int \<Rightarrow> addr \<Rightarrow> addr option \<Rightarrow> PriQ \<Rightarrow> error + int \<times> PriQ" where
  "loop_body h SavedLevel N N2 q =
     (case (case N2 of
              Some n2 \<Rightarrow> Inr (find_child (Children (h ! N)) 0 n2, q)
            | None \<Rightarrow>
                (case find_untaken (Children (h ! N)) 0 (0, - 1) of
                   (NumUntaken, Next) \<Rightarrow>
                     if \<not> NumUntaken > 0 then Inl AssertFailed
                     else Inr (Next,
                               if NumUntaken > 1 then PriQ_insert N SavedLevel q else q))) of
        Inl e \<Rightarrow> Inl e
      | Inr (Next, q') \<Rightarrow> if Next = - 1 then Inl AssertFailed else Inr (Next, q'))"

text \<open>
  The \<^verbatim>\<open>do ... while (N != Root.get())\<close> loop of \<^verbatim>\<open>makeChooser\<close>.  It walks
  parent pointers, so whether it ends depends on the store: not returning is
  the value \<open>None\<close>.  A null parent is followed in the next iteration.
\<close>

partial_function (option) walk_up ::
  "BNode list \<Rightarrow> addr \<Rightarrow> int \<Rightarrow> addr \<Rightarrow> addr option \<Rightarrow> PriQ \<Rightarrow> int list
     \<Rightarrow> (error + PriQ \<times> int list) option" where
  "walk_up h R SavedLevel N N2 q saved =
     (if \<not> N < length h then Some (Inl UndefinedBehaviour)
      else
        (case loop_body h SavedLevel N N2 q of
           Inl e \<Rightarrow> Some (Inl e)
         | Inr (Next, q') \<Rightarrow>
             (case Parent (h ! N) of
                None \<Rightarrow> Some (Inl UndefinedBehaviour)
              | Some p \<Rightarrow>
                  if p \<noteq> R then walk_up h R SavedLevel p (Some N) q' (saved @ [Next])
                  else Some (Inr (q', saved @ [Next])))))"

definition makeChooser ::
  "'r BFSGuide \<Rightarrow> (error + BFSChooser option \<times> 'r BFSGuide) option" where
  "makeChooser g =
     (if Choosing g then Some (Inl AssertFailed)
      else if \<not> Started g then
        Some (Inr (Some (BFSChooser_new g), g\<lparr> Started := True, Choosing := True \<rparr>))
      else
        (case removeHead (PendingPaths g) of
           ((Some N, SavedLevel), q) \<Rightarrow>
             if \<not> SavedLevel \<ge> MaxSavedLevel g then Some (Inl AssertFailed)
             else
               (case walk_up (Heap g) (Root g) SavedLevel N None q [] of
                  None \<Rightarrow> None
                | Some (Inl e) \<Rightarrow> Some (Inl e)
                | Some (Inr (q', saved)) \<Rightarrow>
                    Some (Inr (Some ((BFSChooser_new g)\<lparr> SavedChoices := saved \<rparr>),
                               g\<lparr> PendingPaths := q', MaxSavedLevel := SavedLevel,
                                  Choosing := True \<rparr>)))
         | ((None, SavedLevel), q) \<Rightarrow> Some (Inr (None, g\<lparr> PendingPaths := q \<rparr>))))"

text \<open>\<^verbatim>\<open>Current->Children.at(LastChoice) = p\<close>.\<close>

definition set_child :: "BNode list \<Rightarrow> addr \<Rightarrow> int \<Rightarrow> addr \<Rightarrow> BNode list" where
  "set_child h a i p = h[a := (h ! a)\<lparr> Children := (Children (h ! a))[nat i := Some p] \<rparr>]"

definition BFSChooser_dtor :: "'r BFSGuide \<Rightarrow> BFSChooser \<Rightarrow> error + 'r BFSGuide" where
  "BFSChooser_dtor g c =
     (if SavedChoices c \<noteq> [] then Inl AssertFailed
      else if \<not> Current c < length (Heap g) then Inl UndefinedBehaviour
      else
        (case vector_at (Children (Heap g ! Current c)) (LastChoice c) of
           Inl e \<Rightarrow> Inl e
         | Inr (Some n) \<Rightarrow> Inr (g\<lparr> Choosing := False \<rparr>)
         | Inr None \<Rightarrow>
             Inr (g\<lparr> Heap := set_child (Heap g @ [\<lparr> Parent = None, Children = [] \<rparr>])
                               (Current c) (LastChoice c) (length (Heap g)),
                     TotalNodes := TotalNodes g + 1,
                     Choosing := False \<rparr>)))"

definition chooseInternal ::
  "'r BFSGuide \<Rightarrow> BFSChooser \<Rightarrow> int \<Rightarrow> ('r \<Rightarrow> error + int \<times> 'r)
     \<Rightarrow> error + int \<times> 'r BFSGuide \<times> BFSChooser" where
  "chooseInternal g c Choices randomChoice =
     (if \<not> Choosing g then Inl AssertFailed
      else if \<not> Current c < length (Heap g) then Inl UndefinedBehaviour
      else
        (case vector_at (Children (Heap g ! Current c)) (LastChoice c) of
           Inl e \<Rightarrow> Inl e
         | Inr (Some N) \<Rightarrow>
             if \<not> N < length (Heap g) then Inl UndefinedBehaviour
             else if Choices \<noteq> int (length (Children (Heap g ! N))) then Inl ExitCalled
             else if \<not> length (SavedChoices c) > 0 then Inl AssertFailed
             else
               (let Choice = last (SavedChoices c)
                in Inr (Choice, g,
                        c\<lparr> Current := N, LastChoice := Choice, Level := Level c + 1,
                           SavedChoices := butlast (SavedChoices c) \<rparr>))
         | Inr None \<Rightarrow>
             if \<not> length (SavedChoices c) = 0 then Inl AssertFailed
             else if Choices < 0 then Inl LengthError
             else
               (let N = length (Heap g);
                    h' = set_child
                           (Heap g @ [\<lparr> Parent = Some (Current c),
                                        Children = replicate (nat Choices) None \<rparr>])
                           (Current c) (LastChoice c) N
                in case randomChoice (Rand g) of
                     Inl e \<Rightarrow> Inl e
                   | Inr (Choice, r') \<Rightarrow>
                       Inr (Choice,
                            g\<lparr> TotalNodes := TotalNodes g + 1, Heap := h', Rand := r',
                               PendingPaths :=
                                 (if Choices > 1 then PriQ_insert N (Level c) (PendingPaths g)
                                  else PendingPaths g) \<rparr>,
                            c\<lparr> Current := N, LastChoice := Choice, Level := Level c + 1 \<rparr>))))"

definition BFS_choose ::
  "'r stdlib \<Rightarrow> 'r BFSGuide \<Rightarrow> BFSChooser \<Rightarrow> int
     \<Rightarrow> error + int \<times> 'r BFSGuide \<times> BFSChooser" where
  "BFS_choose L g c Choices =
     chooseInternal g c Choices (uniform_int_distribution L 0 (to_int (Choices - 1)))"

definition BFS_flip ::
  "'r stdlib \<Rightarrow> 'r BFSGuide \<Rightarrow> BFSChooser \<Rightarrow> error + bool \<times> 'r BFSGuide \<times> BFSChooser" where
  "BFS_flip L g c =
     (case BFS_choose L g c 2 of Inl e \<Rightarrow> Inl e | Inr (k, g', c') \<Rightarrow> Inr (k \<noteq> 0, g', c'))"

definition BFS_chooseWeighted ::
  "'r stdlib \<Rightarrow> 'r BFSGuide \<Rightarrow> BFSChooser \<Rightarrow> int list
     \<Rightarrow> error + int \<times> 'r BFSGuide \<times> BFSChooser" where
  "BFS_chooseWeighted L g c Probs =
     chooseInternal g c (int (length Probs))
       (\<lambda>r. case discrete_distribution_of (map real_of_int Probs) of
               Inl e \<Rightarrow> Inl e
             | Inr d \<Rightarrow> Inr (discrete_draw L d r))"

definition BFS_chooseUnimportant ::
  "'r stdlib \<Rightarrow> 'r BFSGuide \<Rightarrow> BFSChooser \<Rightarrow> error + int \<times> 'r BFSGuide \<times> BFSChooser" where
  "BFS_chooseUnimportant L g c =
     (case uniform_int_distribution L LONG_MIN LONG_MAX (Rand g) of
        Inl e \<Rightarrow> Inl e
      | Inr (v, r') \<Rightarrow> Inr (v, g\<lparr> Rand := r' \<rparr>, c))"

subsection \<open>The default guide\<close>

text \<open>The default guide owns the generator only; its chooser draws and keeps nothing.\<close>

record 'r DefaultGuide =
  DRand :: 'r

definition DefaultGuide_new :: "'r stdlib \<Rightarrow> int \<Rightarrow> 'r DefaultGuide" where
  "DefaultGuide_new L Seed = \<lparr> DRand = mt19937_64 L Seed \<rparr>"

definition Default_choose ::
  "'r stdlib \<Rightarrow> 'r DefaultGuide \<Rightarrow> int \<Rightarrow> error + int \<times> 'r DefaultGuide" where
  "Default_choose L g Choices =
     (case uniform_int_distribution L 0 (to_int (Choices - 1)) (DRand g) of
        Inl e \<Rightarrow> Inl e
      | Inr (k, r') \<Rightarrow> Inr (k, g\<lparr> DRand := r' \<rparr>))"

definition Default_flip ::
  "'r stdlib \<Rightarrow> 'r DefaultGuide \<Rightarrow> error + bool \<times> 'r DefaultGuide" where
  "Default_flip L g =
     (case Default_choose L g 2 of Inl e \<Rightarrow> Inl e | Inr (k, g') \<Rightarrow> Inr (k \<noteq> 0, g'))"

definition Default_chooseWeighted ::
  "'r stdlib \<Rightarrow> 'r DefaultGuide \<Rightarrow> int list \<Rightarrow> error + int \<times> 'r DefaultGuide" where
  "Default_chooseWeighted L g Probs =
     (case discrete_distribution_of (map real_of_int Probs) of
        Inl e \<Rightarrow> Inl e
      | Inr d \<Rightarrow> (case discrete_draw L d (DRand g) of (k, r') \<Rightarrow> Inr (k, g\<lparr> DRand := r' \<rparr>)))"


subsection \<open>The weighted-sampler guide\<close>

text \<open>
  A sampler node.  \<^verbatim>\<open>Node() {}\<close> leaves \<^verbatim>\<open>SizeEstimate\<close> without a value
  (\<open>None\<close>; reading it then is undefined behaviour) and default-constructs
  \<^verbatim>\<open>ChildSampler\<close>.
\<close>

record WNode =
  visited :: bool
  WChildren :: "addr option list"
  ChildSampler :: discrete_distribution
  SizeEstimate :: "real option"

definition WNode_new :: WNode where
  "WNode_new =
     \<lparr> visited = False, WChildren = [], ChildSampler = discrete_distribution_default,
       SizeEstimate = None \<rparr>"

record 'r WeightedSamplerGuide =
  WRoot :: addr
  WHeap :: "WNode list"
  WRand :: 'r

record WeightedSamplerChooser =
  Trail :: "addr list"

definition WeightedSamplerGuide_new :: "'r stdlib \<Rightarrow> int \<Rightarrow> 'r WeightedSamplerGuide" where
  "WeightedSamplerGuide_new L Seed =
     \<lparr> WRoot = 0, WHeap = [WNode_new], WRand = mt19937_64 L Seed \<rparr>"

definition WS_makeChooser :: "'r WeightedSamplerGuide \<Rightarrow> WeightedSamplerChooser" where
  "WS_makeChooser g = \<lparr> Trail = [WRoot g] \<rparr>"

definition fdiv :: "real \<Rightarrow> real \<Rightarrow> error + real" where
  "fdiv x y = (if y = 0 then Inl NotFinite else Inr (x / y))"

text \<open>\<^verbatim>\<open>vector::resize(n)\<close> on a vector of null pointers.\<close>

definition resize :: "addr option list \<Rightarrow> nat \<Rightarrow> addr option list" where
  "resize xs n = take n xs @ replicate (n - length xs) None"

text \<open>
  The loop \<^verbatim>\<open>for (i = 0; i < ChildSampler.probabilities().size(); i++)
  ChildWeights[i] /= total\<close> of \<^verbatim>\<open>visit\<close>: the bound is the size of the
  sampler the node holds at that moment.
\<close>

fun normalize_prefix :: "nat \<Rightarrow> real \<Rightarrow> real list \<Rightarrow> error + real list" where
  "normalize_prefix 0 tot ws = Inr ws"
| "normalize_prefix (Suc k) tot [] = Inl UndefinedBehaviour"
| "normalize_prefix (Suc k) tot (w # ws) =
     (case fdiv w tot of
        Inl e \<Rightarrow> Inl e
      | Inr w' \<Rightarrow>
          (case normalize_prefix k tot ws of Inl e \<Rightarrow> Inl e | Inr ws' \<Rightarrow> Inr (w' # ws')))"

definition visit :: "WNode \<Rightarrow> int \<Rightarrow> int list \<Rightarrow> error + WNode" where
  "visit nd n weights =
     (if \<not> (length weights = 0 \<or> int (length weights) = n) then Inl AssertFailed
      else if visited nd then
        (if n = int (length (WChildren nd)) then Inr nd else Inl AssertFailed)
      else if n < 0 then Inl LengthError
      else
        (let nd' = nd\<lparr> WChildren := resize (WChildren nd) (nat n), visited := True,
                        SizeEstimate := Some (real_of_int n) \<rparr>
         in if length weights > 0 then
              (let tot = fold (\<lambda>w tot. tot + real_of_int w) weights 0;
                   ChildWeights = map real_of_int weights
               in case normalize_prefix (length (probabilities (ChildSampler nd')))
                         tot ChildWeights of
                    Inl e \<Rightarrow> Inl e
                  | Inr ChildWeights' \<Rightarrow>
                      (case discrete_distribution_of ChildWeights' of
                         Inl e \<Rightarrow> Inl e
                       | Inr d \<Rightarrow> Inr (nd'\<lparr> ChildSampler := d \<rparr>)))
            else Inr nd'))"

definition weight :: "WNode \<Rightarrow> nat \<Rightarrow> error + real" where
  "weight nd i =
     (if \<not> visited nd then Inl AssertFailed
      else if length (probabilities (ChildSampler nd)) > 0 then
        (if i < length (probabilities (ChildSampler nd))
         then Inr (probabilities (ChildSampler nd) ! i)
         else Inl UndefinedBehaviour)
      else fdiv 1 (real (length (WChildren nd))))"

text \<open>
  The loop of \<^verbatim>\<open>choose\<close> that builds the reweighted distribution, over the
  child slots from index \<open>i\<close> on.
\<close>

fun reweight :: "WNode list \<Rightarrow> WNode \<Rightarrow> nat \<Rightarrow> addr option list \<Rightarrow> error + real list" where
  "reweight h current i [] = Inr []"
| "reweight h current i (child # cs) =
     (case (case child of
              None \<Rightarrow> Inr 0
            | Some ch \<Rightarrow>
                if \<not> ch < length h then Inl UndefinedBehaviour
                else
                  (case SizeEstimate (h ! ch) of
                     None \<Rightarrow> Inl UndefinedBehaviour
                   | Some s \<Rightarrow>
                       (case weight current i of Inl e \<Rightarrow> Inl e | Inr w \<Rightarrow> Inr (s * w)))) of
        Inl e \<Rightarrow> Inl e
      | Inr x \<Rightarrow>
          (case reweight h current (Suc i) cs of Inl e \<Rightarrow> Inl e | Inr xs \<Rightarrow> Inr (x # xs)))"

text \<open>
  The initial sample of \<^verbatim>\<open>choose\<close>: uniform when the sampler reports no
  probabilities, otherwise drawn from the sampler.
\<close>

definition initial_sample ::
  "'r stdlib \<Rightarrow> WNode \<Rightarrow> int \<Rightarrow> 'r \<Rightarrow> error + int \<times> 'r" where
  "initial_sample L current Choices r =
     (if length (probabilities (ChildSampler current)) = 0
      then uniform_int_distribution L 0 (Choices - 1) r
      else Inr (discrete_draw L (ChildSampler current) r))"

definition WS_choose ::
  "'r stdlib \<Rightarrow> 'r WeightedSamplerGuide \<Rightarrow> WeightedSamplerChooser \<Rightarrow> int \<Rightarrow> int list
     \<Rightarrow> error + int \<times> 'r WeightedSamplerGuide \<times> WeightedSamplerChooser" where
  "WS_choose L g c Choices Weights =
     (if Trail c = [] \<or> \<not> last (Trail c) < length (WHeap g) then Inl UndefinedBehaviour
      else
        (case visit (WHeap g ! last (Trail c)) Choices Weights of
           Inl e \<Rightarrow> Inl e
         | Inr current \<Rightarrow>
             (let h = (WHeap g)[last (Trail c) := current]
              in case initial_sample L current Choices (WRand g) of
                   Inl e \<Rightarrow> Inl e
                 | Inr (result, r) \<Rightarrow>
                     if \<not> (0 \<le> result \<and> result < int (length (WChildren current)))
                     then Inl UndefinedBehaviour
                     else
                       (case (if WChildren current ! nat result = None then Inr (result, r)
                              else
                                (case reweight h current 0 (WChildren current) of
                                   Inl e \<Rightarrow> Inl e
                                 | Inr weights \<Rightarrow>
                                     (case discrete_distribution_of weights of
                                        Inl e \<Rightarrow> Inl e
                                      | Inr d \<Rightarrow> Inr (discrete_draw L d r)))) of
                          Inl e \<Rightarrow> Inl e
                        | Inr (result', r') \<Rightarrow>
                            if \<not> (0 \<le> result' \<and> result' < int (length (WChildren current)))
                            then Inl UndefinedBehaviour
                            else
                              (case WChildren current ! nat result' of
                                 Some next_node \<Rightarrow>
                                   Inr (result', g\<lparr> WHeap := h, WRand := r' \<rparr>,
                                        c\<lparr> Trail := Trail c @ [next_node] \<rparr>)
                               | None \<Rightarrow>
                                   (let next_node = length h;
                                        h' = (h @ [WNode_new])
                                               [last (Trail c) :=
                                                  current\<lparr> WChildren :=
                                                    (WChildren current)
                                                      [nat result' := Some next_node] \<rparr>]
                                    in Inr (result', g\<lparr> WHeap := h', WRand := r' \<rparr>,
                                            c\<lparr> Trail := Trail c @ [next_node] \<rparr>)))))))"

definition WS_choose1 ::
  "'r stdlib \<Rightarrow> 'r WeightedSamplerGuide \<Rightarrow> WeightedSamplerChooser \<Rightarrow> int
     \<Rightarrow> error + int \<times> 'r WeightedSamplerGuide \<times> WeightedSamplerChooser" where
  "WS_choose1 L g c Choices = WS_choose L g c Choices []"

definition WS_flip ::
  "'r stdlib \<Rightarrow> 'r WeightedSamplerGuide \<Rightarrow> WeightedSamplerChooser
     \<Rightarrow> error + bool \<times> 'r WeightedSamplerGuide \<times> WeightedSamplerChooser" where
  "WS_flip L g c =
     (case WS_choose1 L g c 2 of Inl e \<Rightarrow> Inl e | Inr (k, g', c') \<Rightarrow> Inr (k \<noteq> 0, g', c'))"

definition WS_chooseWeighted ::
  "'r stdlib \<Rightarrow> 'r WeightedSamplerGuide \<Rightarrow> WeightedSamplerChooser \<Rightarrow> int list
     \<Rightarrow> error + int \<times> 'r WeightedSamplerGuide \<times> WeightedSamplerChooser" where
  "WS_chooseWeighted L g c Probs = WS_choose L g c (int (length Probs)) Probs"


text \<open>
  The inner loop of the destructor over the child slots of \<^verbatim>\<open>last\<close>, from
  index \<open>i\<close> on, accumulating \<^verbatim>\<open>occupied\<close> and \<^verbatim>\<open>total\<close>.  The weight is
  taken before the slot is tested, as in the source.
\<close>

fun occupied_total ::
  "WNode list \<Rightarrow> WNode \<Rightarrow> nat \<Rightarrow> addr option list \<Rightarrow> real \<times> real \<Rightarrow> error + real \<times> real" where
  "occupied_total h lst i [] acc = Inr acc"
| "occupied_total h lst i (child # cs) (occupied, tot) =
     (case weight lst i of
        Inl e \<Rightarrow> Inl e
      | Inr w \<Rightarrow>
          (case child of
             None \<Rightarrow> occupied_total h lst (Suc i) cs (occupied, tot)
           | Some ch \<Rightarrow>
               if \<not> ch < length h then Inl UndefinedBehaviour
               else
                 (case SizeEstimate (h ! ch) of
                    None \<Rightarrow> Inl UndefinedBehaviour
                  | Some s \<Rightarrow> occupied_total h lst (Suc i) cs (occupied + w, tot + s * w))))"

text \<open>
  The \<^verbatim>\<open>while (Trail.size() > 0)\<close> loop of the destructor.  The trail is
  passed deepest node first (the order in which \<^verbatim>\<open>back()\<close> and
  \<^verbatim>\<open>pop_back()\<close> consume it); the result is the store and the trail left.
\<close>

fun collapse :: "WNode list \<Rightarrow> addr list \<Rightarrow> error + WNode list \<times> addr list" where
  "collapse h [] = Inr (h, [])"
| "collapse h (lst # rest) =
     (if \<not> lst < length h then Inl UndefinedBehaviour
      else
        (case occupied_total h (h ! lst) 0 (WChildren (h ! lst)) (0, 0) of
           Inl e \<Rightarrow> Inl e
         | Inr (occupied, tot) \<Rightarrow>
             (case fdiv (real (length (WChildren (h ! lst)))) occupied of
                Inl e \<Rightarrow> Inl e
              | Inr s \<Rightarrow> collapse (h[lst := (h ! lst)\<lparr> SizeEstimate := Some s \<rparr>]) rest)))"

definition WeightedSamplerChooser_dtor ::
  "'r WeightedSamplerGuide \<Rightarrow> WeightedSamplerChooser
     \<Rightarrow> error + 'r WeightedSamplerGuide \<times> WeightedSamplerChooser" where
  "WeightedSamplerChooser_dtor g c =
     (if Trail c = [] \<or> \<not> last (Trail c) < length (WHeap g) then Inl UndefinedBehaviour
      else
        (case collapse ((WHeap g)[last (Trail c) :=
                          (WHeap g ! last (Trail c))\<lparr> SizeEstimate := Some 1 \<rparr>])
                (rev (butlast (Trail c))) of
           Inl e \<Rightarrow> Inl e
         | Inr (h', trail') \<Rightarrow> Inr (g\<lparr> WHeap := h' \<rparr>, c\<lparr> Trail := rev trail' \<rparr>)))"

subsection \<open>Generators and the driver\<close>












section \<open>Vocabulary of the claims\<close>

text \<open>The indices of the null child slots of a node, in increasing order.\<close>

definition untaken :: "addr option list \<Rightarrow> nat list" where
  "untaken cs = filter (\<lambda>k. cs ! k = None) [0..<length cs]"


text \<open>
  The nodes of the BFS guide's tree: what can be reached from the root
  through child pointers.
\<close>

inductive reachable :: "BNode list \<Rightarrow> addr \<Rightarrow> addr \<Rightarrow> bool" for h R where
  reachable_root: "reachable h R R"
| reachable_child:
    "reachable h R a \<Longrightarrow> a < length h \<Longrightarrow> Some b \<in> set (Children (h ! a)) \<Longrightarrow> reachable h R b"

text \<open>
  The states of a BFS guide in use: the guide alone between traversals, the
  guide with its live chooser during one.  The generator may call the
  chooser as the contract allows (\<open>n > 0\<close>, non-empty weights) and every call
  that returns leads to a state.
\<close>

inductive bfs_reach :: "'r stdlib \<Rightarrow> 'r BFSGuide \<Rightarrow> BFSChooser option \<Rightarrow> bool" for L where
  reach_new: "bfs_reach L (BFSGuide_new L Seed) None"
| reach_makeChooser:
    "bfs_reach L g None \<Longrightarrow> makeChooser g = Some (Inr (co, g')) \<Longrightarrow> bfs_reach L g' co"
| reach_choose:
    "bfs_reach L g (Some c) \<Longrightarrow> 0 < n \<Longrightarrow> BFS_choose L g c n = Inr (k, g', c')
       \<Longrightarrow> bfs_reach L g' (Some c')"
| reach_flip:
    "bfs_reach L g (Some c) \<Longrightarrow> BFS_flip L g c = Inr (b, g', c') \<Longrightarrow> bfs_reach L g' (Some c')"
| reach_chooseWeighted:
    "bfs_reach L g (Some c) \<Longrightarrow> Probs \<noteq> [] \<Longrightarrow> BFS_chooseWeighted L g c Probs = Inr (k, g', c')
       \<Longrightarrow> bfs_reach L g' (Some c')"
| reach_chooseUnimportant:
    "bfs_reach L g (Some c) \<Longrightarrow> BFS_chooseUnimportant L g c = Inr (v, g', c')
       \<Longrightarrow> bfs_reach L g' (Some c')"
| reach_dtor:
    "bfs_reach L g (Some c) \<Longrightarrow> BFSChooser_dtor g c = Inr g' \<Longrightarrow> bfs_reach L g' None"

text \<open>
  The invariant of these states.  \<open>path_ok h n ks\<close>: the saved choices \<open>ks\<close>, in
  the order they are popped, are child indices along a path of the store that
  starts at node \<open>n\<close>.
\<close>

fun path_ok :: "BNode list \<Rightarrow> addr \<Rightarrow> int list \<Rightarrow> bool" where
  "path_ok h n [] = True"
| "path_ok h n (k # ks) =
     (n < length h \<and> 0 \<le> k \<and> k < int (length (Children (h ! n))) \<and>
      (ks = [] \<or> (case Children (h ! n) ! nat k of None \<Rightarrow> False | Some m \<Rightarrow> path_ok h m ks)))"

definition heap_ok :: "BNode list \<Rightarrow> addr \<Rightarrow> bool" where
  "heap_ok h R \<longleftrightarrow>
     R < length h \<and> length (Children (h ! R)) = 1 \<and>
     (\<forall>a<length h. \<forall>b. Some b \<in> set (Children (h ! a)) \<longrightarrow> b < length h) \<and>
     (\<forall>a<length h. \<forall>p. Parent (h ! a) = Some p \<longrightarrow> p < length h \<and> Some a \<in> set (Children (h ! p))) \<and>
     (\<forall>a<length h. reachable h R a)"

definition chooser_ok :: "BNode list \<Rightarrow> BFSChooser \<Rightarrow> bool" where
  "chooser_ok h c \<longleftrightarrow>
     Current c < length h \<and>
     (SavedChoices c = [] \<or>
      (\<exists>n. vector_at (Children (h ! Current c)) (LastChoice c) = Inr (Some n) \<and>
           path_ok h n (rev (SavedChoices c))))"

definition bfs_inv :: "'r BFSGuide \<Rightarrow> BFSChooser option \<Rightarrow> bool" where
  "bfs_inv g co \<longleftrightarrow>
     heap_ok (Heap g) (Root g) \<and> TotalNodes g + 1 = int (length (Heap g)) \<and>
     (case co of None \<Rightarrow> True | Some c \<Rightarrow> chooser_ok (Heap g) c)"


text \<open>
  The update of the sampler's destructor in the words of the claim: the value
  \<^verbatim>\<open>weight(i)\<close> returns, the sum of these values over the indices of the
  non-null child slots, and the assignment of \<^verbatim>\<open>Children.size() / occupied\<close>
  to the size estimate of a node.
\<close>

definition weight_of :: "WNode \<Rightarrow> nat \<Rightarrow> real" where
  "weight_of nd i = (case weight nd i of Inr w \<Rightarrow> w | Inl e \<Rightarrow> 0)"

definition occupied_slots :: "addr option list \<Rightarrow> nat list" where
  "occupied_slots cs = filter (\<lambda>i. cs ! i \<noteq> None) [0..<length cs]"

definition occupied_weight :: "WNode \<Rightarrow> real" where
  "occupied_weight nd = sum_list (map (weight_of nd) (occupied_slots (WChildren nd)))"

definition size_update :: "addr \<Rightarrow> WNode list \<Rightarrow> WNode list" where
  "size_update a h =
     h[a := (h ! a)\<lparr> SizeEstimate :=
                      Some (real (length (WChildren (h ! a))) / occupied_weight (h ! a)) \<rparr>]"











text \<open>The store after a new cell is linked into the null slot \<open>i\<close> of node \<open>a\<close>.\<close>

definition link :: "BNode list \<Rightarrow> addr \<Rightarrow> nat \<Rightarrow> BNode \<Rightarrow> BNode list" where
  "link h a i nd = set_child (h @ [nd]) a (int i) (length h)"





subsection \<open>Example states\<close>

text \<open>
  The BFS guide after its bootstrap traversal of a generator that calls
  \<^verbatim>\<open>choose(3)\<close> once, under the counter library with seed 0: the draw is 0.
\<close>

definition bfs_example_guide :: "nat BFSGuide" where
  "bfs_example_guide =
     \<lparr> TotalNodes = 2, Root = 0,
       Heap = [\<lparr> Parent = None, Children = [Some 1] \<rparr>,
               \<lparr> Parent = Some 0, Children = [Some 2, None, None] \<rparr>,
               \<lparr> Parent = None, Children = [] \<rparr>],
       PendingPaths = [(1, 0)], MaxSavedLevel = - 1,
       Choosing = False, Started = True, Rand = 1 \<rparr>"

definition bfs_example_chooser :: BFSChooser where
  "bfs_example_chooser = \<lparr> Current = 0, LastChoice = 0, Level = 0, SavedChoices = [2] \<rparr>"

text \<open>
  The sampler guide after one traversal of a generator that calls
  \<^verbatim>\<open>chooseWeighted({1, 3})\<close> once, under the counter library with seed 0.
\<close>

definition ws_example_guide :: "nat WeightedSamplerGuide" where
  "ws_example_guide =
     \<lparr> WRoot = 0,
       WHeap = [\<lparr> visited = True, WChildren = [Some 1, None],
                  ChildSampler = DiscreteDistribution [1 / 13, 12 / 13],
                  SizeEstimate = Some 26 \<rparr>,
                \<lparr> visited = False, WChildren = [],
                  ChildSampler = discrete_distribution_default, SizeEstimate = Some 1 \<rparr>],
       WRand = 1 \<rparr>"

text \<open>The BFS guide after a bootstrap traversal that makes no choice.\<close>

definition bfs_leaf_guide :: "nat BFSGuide" where
  "bfs_leaf_guide =
     \<lparr> TotalNodes = 1, Root = 0,
       Heap = [\<lparr> Parent = None, Children = [Some 1] \<rparr>, \<lparr> Parent = None, Children = [] \<rparr>],
       PendingPaths = [], MaxSavedLevel = - 1,
       Choosing = False, Started = True, Rand = 0 \<rparr>"


text \<open>
  The sampler guide during a second kind of traversal, \<^verbatim>\<open>chooseWeighted({1, 3})\<close>
  followed by \<^verbatim>\<open>choose(1)\<close>, before and after the chooser is disposed.
\<close>

definition ws_example_active :: "nat WeightedSamplerGuide" where
  "ws_example_active =
     \<lparr> WRoot = 0,
       WHeap = [\<lparr> visited = True, WChildren = [Some 1, None],
                  ChildSampler = DiscreteDistribution [1 / 13, 12 / 13],
                  SizeEstimate = Some 2 \<rparr>,
                \<lparr> visited = True, WChildren = [Some 2],
                  ChildSampler = discrete_distribution_default, SizeEstimate = Some 1 \<rparr>,
                \<lparr> visited = False, WChildren = [],
                  ChildSampler = discrete_distribution_default, SizeEstimate = None \<rparr>],
       WRand = 2 \<rparr>"


definition ws_example_collapsed :: "nat WeightedSamplerGuide" where
  "ws_example_collapsed =
     \<lparr> WRoot = 0,
       WHeap = [\<lparr> visited = True, WChildren = [Some 1, None],
                  ChildSampler = DiscreteDistribution [1 / 13, 12 / 13],
                  SizeEstimate = Some 26 \<rparr>,
                \<lparr> visited = True, WChildren = [Some 2],
                  ChildSampler = discrete_distribution_default, SizeEstimate = Some 1 \<rparr>,
                \<lparr> visited = False, WChildren = [],
                  ChildSampler = discrete_distribution_default, SizeEstimate = Some 1 \<rparr>],
       WRand = 2 \<rparr>"


text \<open>
  The sampler guide after \<^verbatim>\<open>flip\<close> on a new guide, under the counter library
  with seed 0, before the chooser is disposed.
\<close>

definition ws_flip_guide :: "nat WeightedSamplerGuide" where
  "ws_flip_guide =
     \<lparr> WRoot = 0,
       WHeap = [\<lparr> visited = True, WChildren = [Some 1, None],
                  ChildSampler = discrete_distribution_default, SizeEstimate = Some 2 \<rparr>,
                WNode_new],
       WRand = 1 \<rparr>"

text \<open>The next \<open>n\<close> calls of \<^verbatim>\<open>makeChooser\<close> all return the null chooser.\<close>

fun all_absent :: "nat \<Rightarrow> 'r BFSGuide \<Rightarrow> bool" where
  "all_absent 0 g = True"
| "all_absent (Suc n) g =
     (case makeChooser g of Some (Inr (None, g')) \<Rightarrow> all_absent n g' | _ \<Rightarrow> False)"

section \<open>Properties\<close>

subsection \<open>The library\<close>

lemma lib_ok_counter_lib: "lib_ok counter_lib"
proof -
  have "a + int r mod (b - a + 1) \<le> b \<and> a \<le> a + int r mod (b - a + 1)"
    if "a \<le> b" for a b :: int and r :: nat
    using that pos_mod_bound[of "b - a + 1" "int r"] pos_mod_sign[of "b - a + 1" "int r"]
    by linarith
  then show ?thesis
    by (simp add: lib_ok_def counter_lib_def)
qed

lemma uniform_draw_range:
  assumes "lib_ok L" "a \<le> b"
  shows "\<exists>v r'. uniform_int_distribution L a b r = Inr (v, r') \<and> a \<le> v \<and> v \<le> b"
proof -
  obtain v r' where u: "uniform_int L a b r = (v, r')"
    by (cases "uniform_int L a b r")
  have "a \<le> fst (uniform_int L a b r) \<and> fst (uniform_int L a b r) \<le> b"
    using assms unfolding lib_ok_def by blast
  with u assms(2) show ?thesis
    by (simp add: uniform_int_distribution_def)
qed

lemma discrete_draw_range:
  assumes "lib_ok L" "probabilities d \<noteq> []"
  shows "0 \<le> fst (discrete_draw L d r) \<and>
         fst (discrete_draw L d r) < int (length (probabilities d))"
proof -
  obtain k r' where k: "discrete L (probabilities d) r = (k, r')"
    by (cases "discrete L (probabilities d) r")
  have "fst (discrete L (probabilities d) r) < length (probabilities d)"
    using assms unfolding lib_ok_def by blast
  with k show ?thesis
    by (simp add: discrete_draw_def)
qed

lemma discrete_draw_default:
  "lib_ok L \<Longrightarrow> fst (discrete_draw L discrete_distribution_default r) = 0"
  using discrete_draw_range[of L discrete_distribution_default r]
  by (simp add: discrete_distribution_default_def)


subsection \<open>The example states are states of runs\<close>

lemma bfs_example_guide_run:
  "\<exists>c1 g1 c2 g2.
     makeChooser (BFSGuide_new counter_lib 0) = Some (Inr (Some c1, g1)) \<and>
     BFS_choose counter_lib g1 c1 3 = Inr (0, g2, c2) \<and>
     BFSChooser_dtor g2 c2 = Inr bfs_example_guide"
  by (simp add: makeChooser_def BFSGuide_new_def BFSChooser_new_def BFS_choose_def
      chooseInternal_def vector_at_def set_child_def uniform_int_distribution_def to_int_def
      counter_lib_def BFSChooser_dtor_def bfs_example_guide_def eval_nat_numeral)

lemma bfs_example_makeChooser:
  "makeChooser bfs_example_guide =
     Some (Inr (Some bfs_example_chooser,
                bfs_example_guide\<lparr> MaxSavedLevel := 0, Choosing := True \<rparr>))"
  by (simp add: makeChooser_def bfs_example_guide_def removeHead_def walk_up.simps
      loop_body_def BFSChooser_new_def bfs_example_chooser_def)

lemma ws_example_guide_run:
  "\<exists>g1 c1 c2.
     WS_chooseWeighted counter_lib (WeightedSamplerGuide_new counter_lib 0)
        (WS_makeChooser (WeightedSamplerGuide_new counter_lib 0)) [1, 3] = Inr (0, g1, c1) \<and>
     WeightedSamplerChooser_dtor g1 c1 = Inr (ws_example_guide, c2)"
  by (simp add: WS_chooseWeighted_def WS_choose_def WeightedSamplerGuide_new_def
      WS_makeChooser_def visit_def WNode_new_def initial_sample_def
      discrete_distribution_default_def discrete_distribution_of_def fdiv_def
      discrete_draw_def counter_lib_def resize_def WeightedSamplerChooser_dtor_def
      weight_def ws_example_guide_def eval_nat_numeral)

lemma all_absent_fixed: "makeChooser g = Some (Inr (None, g)) \<Longrightarrow> all_absent n g"
  by (induction n) simp_all

subsection \<open>The scans and the walk to the root\<close>

lemma untaken_Nil: "untaken [] = []"
  by (simp add: untaken_def)

lemma untaken_Cons:
  "untaken (c # cs) = (if c = None then [0] else []) @ map Suc (untaken cs)"
proof -
  have "[0..<length (c # cs)] = 0 # map Suc [0..<length cs]"
    by (simp add: upt_conv_Cons map_Suc_upt del: upt_Suc)
  then show ?thesis
    by (simp add: untaken_def filter_map comp_def)
qed

lemma find_untaken_eq:
  "find_untaken cs i (nu, nx) =
     (nu + int (length (untaken cs)),
      if untaken cs = [] then nx else i + int (last (untaken cs)))"
proof (induction cs arbitrary: i nu nx)
  case Nil
  then show ?case by (simp add: untaken_Nil)
next
  case (Cons c cs)
  show ?case
    by (simp add: Cons.IH untaken_Cons last_map)
qed

lemma untaken_set: "k \<in> set (untaken cs) \<longleftrightarrow> k < length cs \<and> cs ! k = None"
  by (auto simp: untaken_def)

lemma find_child_found:
  "find_child cs i n2 \<noteq> - 1 \<Longrightarrow> 0 \<le> i \<Longrightarrow>
     i \<le> find_child cs i n2 \<and> find_child cs i n2 < i + int (length cs) \<and>
     cs ! nat (find_child cs i n2 - i) = Some n2"
proof (induction cs arbitrary: i)
  case Nil
  then show ?case by simp
next
  case (Cons c cs)
  show ?case
  proof (cases "c = Some n2")
    case True
    then show ?thesis by simp
  next
    case False
    with Cons.prems have ne: "find_child cs (i + 1) n2 \<noteq> - 1" by simp
    from Cons.IH[OF ne] Cons.prems(2)
    have ih: "i + 1 \<le> find_child cs (i + 1) n2"
      "find_child cs (i + 1) n2 < i + 1 + int (length cs)"
      "cs ! nat (find_child cs (i + 1) n2 - (i + 1)) = Some n2" by auto
    have "nat (find_child cs (i + 1) n2 - i) = Suc (nat (find_child cs (i + 1) n2 - (i + 1)))"
      using ih(1) by linarith
    with ih False show ?thesis by simp
  qed
qed

lemma loop_body_Inr:
  assumes "loop_body h l N N2 q = Inr (Next, q')"
  shows "0 \<le> Next \<and> Next < int (length (Children (h ! N))) \<and>
         (case N2 of
            Some n2 \<Rightarrow> Children (h ! N) ! nat Next = Some n2 \<and> q' = q
          | None \<Rightarrow> untaken (Children (h ! N)) \<noteq> [] \<and>
                     Next = int (last (untaken (Children (h ! N)))) \<and>
                     Children (h ! N) ! nat Next = None \<and>
                     q' = (if 1 < length (untaken (Children (h ! N)))
                           then PriQ_insert N l q else q))"
proof (cases N2)
  case None
  let ?u = "untaken (Children (h ! N))"
  from assms None have ne: "?u \<noteq> []" and nx: "Next = int (last ?u)"
    and q: "q' = (if 1 < length ?u then PriQ_insert N l q else q)"
    by (auto simp: loop_body_def find_untaken_eq split: if_splits)
  from ne have "last ?u \<in> set ?u" by simp
  then have "last ?u < length (Children (h ! N))" "Children (h ! N) ! last ?u = None"
    by (simp_all add: untaken_set)
  with ne nx q None show ?thesis by simp
next
  case (Some n2)
  from assms Some have nx: "Next = find_child (Children (h ! N)) 0 n2" and ne: "Next \<noteq> - 1"
    and q: "q' = q"
    by (auto simp: loop_body_def split: if_splits)
  from find_child_found[of "Children (h ! N)" 0 n2] nx ne
  show ?thesis using Some q by simp
qed

lemma walk_up_Inr:
  assumes "walk_up h R l N N2 q saved = Some (Inr res)"
  shows "N < length h \<and>
         (\<exists>Next q' p. loop_body h l N N2 q = Inr (Next, q') \<and> Parent (h ! N) = Some p \<and>
            (if p \<noteq> R then walk_up h R l p (Some N) q' (saved @ [Next]) = Some (Inr res)
             else res = (q', saved @ [Next])))"
  using assms
  by (subst (asm) walk_up.simps) (auto split: if_splits sum.splits option.splits)

lemma walk_up_saved:
  "walk_up h R l N N2 q saved = Some y \<Longrightarrow>
     (\<forall>q' saved'. y = Inr (q', saved') \<longrightarrow> (\<exists>ys. saved' = saved @ ys \<and> ys \<noteq> []))"
proof (induction rule: walk_up.raw_induct[rotated, consumes 1, case_names step])
  case (step walk_up' h R l N N2 q saved y)
  show ?case
  proof (intro allI impI)
    fix q' saved'
    assume y: "y = Inr (q', saved')"
    from step(2) y obtain Next q1 p where
      p: "Parent (h ! N) = Some p"
      and r: "if p \<noteq> R then walk_up' h R l p (Some N) q1 (saved @ [Next]) = Some (Inr (q', saved'))
              else (q', saved') = (q1, saved @ [Next])"
      by (auto split: if_splits sum.splits option.splits)
    show "\<exists>ys. saved' = saved @ ys \<and> ys \<noteq> []"
    proof (cases "p \<noteq> R")
      case True
      with r have "walk_up' h R l p (Some N) q1 (saved @ [Next]) = Some (Inr (q', saved'))" by simp
      from step(1)[OF this] obtain ys where "saved' = (saved @ [Next]) @ ys" by blast
      then show ?thesis by simp
    next
      case False
      with r show ?thesis by simp
    qed
  qed
qed

lemma untaken_sorted: "sorted (untaken cs) \<and> distinct (untaken cs)"
  by (simp add: untaken_def sorted_wrt_filter)

lemma sorted_hd_Min: "sorted xs \<Longrightarrow> xs \<noteq> [] \<Longrightarrow> hd xs = Min (set (xs :: nat list))"
  by (cases xs) (auto intro!: Min_eqI[symmetric])

lemma sorted_last_Max: "sorted xs \<Longrightarrow> xs \<noteq> [] \<Longrightarrow> last xs = Max (set (xs :: nat list))"
proof -
  assume s: "sorted xs" and ne: "xs \<noteq> []"
  have "y \<le> last xs" if "y \<in> set xs" for y
  proof -
    from that obtain i where i: "i < length xs" "xs ! i = y" by (auto simp: in_set_conv_nth)
    then have "xs ! i \<le> xs ! (length xs - 1)"
      using s by (intro sorted_nth_mono) auto
    with i ne show ?thesis by (simp add: last_conv_nth)
  qed
  with ne show ?thesis by (intro Max_eqI[symmetric]) auto
qed

lemma untaken_hd_last:
  assumes "untaken cs \<noteq> []"
  shows "hd (untaken cs) = Min (set (untaken cs)) \<and> last (untaken cs) = Max (set (untaken cs))"
  using assms untaken_sorted[of cs] sorted_hd_Min sorted_last_Max by blast

subsection \<open>The invariant of the BFS guide\<close>

lemma reachable_mono:
  assumes "reachable h R a"
    and "length h \<le> length h'"
    and "\<And>x b. x < length h \<Longrightarrow> Some b \<in> set (Children (h ! x)) \<Longrightarrow> Some b \<in> set (Children (h' ! x))"
  shows "reachable h' R a"
  using assms(1)
proof (induction rule: reachable.induct)
  case reachable_root
  show ?case by (rule reachable.reachable_root)
next
  case (reachable_child a b)
  from assms(3)[OF reachable_child(2,3)] reachable_child(2) assms(2)
  show ?case by (intro reachable.reachable_child[OF reachable_child.IH]) auto
qed

lemma reachable_bound:
  assumes "heap_ok h R" "reachable h R a"
  shows "a < length h"
  using assms(2)
proof (induction rule: reachable.induct)
  case reachable_root
  from assms(1) show ?case unfolding heap_ok_def by blast
next
  case (reachable_child a b)
  from assms(1) reachable_child(2,3) show ?case unfolding heap_ok_def by blast
qed

lemma reachable_set:
  assumes "heap_ok h R"
  shows "{a. reachable h R a} = {..<length h}"
proof -
  have "reachable h R a" if "a < length h" for a
    using assms that unfolding heap_ok_def by blast
  with reachable_bound[OF assms] show ?thesis by blast
qed

text \<open>Linking a fresh cell into a null slot.\<close>

lemma set_child_nth:
  "a < length h \<Longrightarrow> 
   set_child (h @ [nd]) a i (length h) ! x =
     (if x = a then (h ! a)\<lparr> Children := (Children (h ! a))[nat i := Some (length h)] \<rparr>
      else (h @ [nd]) ! x)"
  by (simp add: set_child_def nth_append nth_list_update)

lemma length_set_child: "length (set_child h a i p) = length h"
  by (simp add: set_child_def)

lemma in_set_update_None:
  assumes "Some b \<in> set cs" "k < length cs" "cs ! k = None"
  shows "Some b \<in> set (cs[k := Some p])"
proof -
  from assms(1) obtain j where j: "j < length cs" "cs ! j = Some b" by (auto simp: in_set_conv_nth)
  with assms(3) have "j \<noteq> k" by auto
  with j have "cs[k := Some p] ! j = Some b" "j < length (cs[k := Some p])" by simp_all
  then show ?thesis by (metis nth_mem)
qed

lemma in_set_updateD:
  "Some b \<in> set (cs[k := Some p]) \<Longrightarrow> b = p \<or> Some b \<in> set cs"
  by (metis in_set_conv_nth length_list_update nth_list_update_eq nth_list_update_neq option.inject)

lemma heap_ok_link:
  assumes ok: "heap_ok h R"
    and a: "a < length h"
    and i: "0 \<le> i" "i < int (length (Children (h ! a)))"
    and n: "Children (h ! a) ! nat i = None"
    and nd: "Children nd = replicate m None" "Parent nd = None \<or> Parent nd = Some a"
  shows "heap_ok (set_child (h @ [nd]) a i (length h)) R"
proof -
  define h' where "h' = set_child (h @ [nd]) a i (length h)"
  let ?N = "length h"
  have len: "length h' = Suc (length h)" by (simp add: length_set_child h'_def)
  have ki: "nat i < length (Children (h ! a))" using i by linarith
  have nth_a: "h' ! a = (h ! a)\<lparr> Children := (Children (h ! a))[nat i := Some ?N] \<rparr>"
    using a by (simp add: set_child_nth h'_def)
  have nth_old: "h' ! x = h ! x" if "x < length h" "x \<noteq> a" for x
    using that a by (simp add: set_child_nth nth_append h'_def)
  have nth_new: "h' ! ?N = nd"
    using a by (simp add: set_child_nth h'_def)
  have keep: "Some b \<in> set (Children (h' ! x))"
    if "x < length h" "Some b \<in> set (Children (h ! x))" for x b
  proof (cases "x = a")
    case True
    with that nth_a in_set_update_None[OF _ ki n] show ?thesis by simp
  next
    case False
    with that nth_old show ?thesis by simp
  qed
  have new_in: "Some ?N \<in> set (Children (h' ! a))"
    using nth_a ki by (simp add: set_update_memI)
  have from': "b = ?N \<or> Some b \<in> set (Children (h ! x))"
    if xl: "x < length h'" and m: "Some b \<in> set (Children (h' ! x))" for x b
  proof -
    from xl len have "x = a \<or> (x < length h \<and> x \<noteq> a) \<or> x = ?N" by linarith
    then show ?thesis
    proof (elim disjE conjE)
      assume "x = a"
      with m nth_a have "Some b \<in> set ((Children (h ! a))[nat i := Some ?N])" by simp
      from in_set_updateD[OF this] \<open>x = a\<close> show ?thesis by simp
    next
      assume "x < length h" "x \<noteq> a"
      with m nth_old show ?thesis by simp
    next
      assume "x = ?N"
      with m nth_new nd(1) show ?thesis by simp
    qed
  qed
  have R: "R < length h" and R1: "length (Children (h ! R)) = 1"
    and ch: "\<And>x b. x < length h \<Longrightarrow> Some b \<in> set (Children (h ! x)) \<Longrightarrow> b < length h"
    and par: "\<And>x p. x < length h \<Longrightarrow> Parent (h ! x) = Some p \<Longrightarrow> p < length h \<and> Some x \<in> set (Children (h ! p))"
    and re: "\<And>x. x < length h \<Longrightarrow> reachable h R x"
    using ok unfolding heap_ok_def by blast+
  have 1: "R < length h'" using R len by simp
  have 2: "length (Children (h' ! R)) = 1"
    using R R1 nth_a nth_old by (cases "R = a") simp_all
  have 3: "b < length h'" if "x < length h'" "Some b \<in> set (Children (h' ! x))" for x b
  proof -
    from from'[OF that] show ?thesis
    proof
      assume "b = ?N" then show ?thesis using len by simp
    next
      assume b: "Some b \<in> set (Children (h ! x))"
      have "x < length h"
      proof (rule ccontr)
        assume "\<not> x < length h"
        with that(1) len have "x = ?N" by simp
        with that(2) nth_new nd(1) show False by simp
      qed
      from ch[OF this b] len show ?thesis by simp
    qed
  qed
  have 4: "p < length h' \<and> Some x \<in> set (Children (h' ! p))"
    if "x < length h'" "Parent (h' ! x) = Some p" for x p
  proof (cases "x = ?N")
    case True
    with that nth_new nd(2) have "p = a" by auto
    with True new_in a len show ?thesis by simp
  next
    case False
    with that(1) len have x: "x < length h" by simp
    have "Parent (h' ! x) = Parent (h ! x)"
      using nth_a nth_old[OF x] by (cases "x = a") simp_all
    with that(2) par[OF x] have "p < length h" "Some x \<in> set (Children (h ! p))" by auto
    with keep len show ?thesis by simp
  qed
  have mono: "reachable h' R x" if "reachable h R x" for x
    using that
    by (rule reachable_mono) (use len keep in auto)
  have 5: "reachable h' R x" if "x < length h'" for x
  proof (cases "x = ?N")
    case True
    have "reachable h' R a" using mono re a by blast
    from reachable.reachable_child[OF this _ new_in] a len True show ?thesis by simp
  next
    case False
    with that len have "x < length h" by simp
    with re mono show ?thesis by blast
  qed
  have "heap_ok h' R"
    unfolding heap_ok_def using 1 2 3 4 5 by blast
  then show ?thesis by (simp add: h'_def)
qed

lemma heap_ok_new: "heap_ok [\<lparr> Parent = None, Children = [None] \<rparr>] 0"
  unfolding heap_ok_def
  by (auto intro: reachable.reachable_root)

lemma bfs_inv_new: "bfs_inv (BFSGuide_new L Seed) None"
  by (simp add: bfs_inv_def BFSGuide_new_def heap_ok_new)

lemma walk_up_path:
  "walk_up h R l N N2 q saved = Some y \<Longrightarrow>
     heap_ok h R \<longrightarrow>
     (case N2 of None \<Rightarrow> saved = [] | Some n2 \<Rightarrow> saved \<noteq> [] \<and> path_ok h n2 (rev saved)) \<longrightarrow>
     (\<forall>q' saved'. y = Inr (q', saved') \<longrightarrow>
        (\<exists>n. Children (h ! R) = [Some n] \<and> path_ok h n (rev saved')))"
proof (induction rule: walk_up.raw_induct[rotated, consumes 1, case_names step])
  case (step walk_up' h R l N N2 q saved y)
  show ?case
  proof (intro allI impI)
    fix q' saved'
    assume ok: "heap_ok h R"
      and pre: "case N2 of None \<Rightarrow> saved = [] | Some n2 \<Rightarrow> saved \<noteq> [] \<and> path_ok h n2 (rev saved)"
      and y: "y = Inr (q', saved')"
    from step(2) y obtain Next q1 p where
      N: "N < length h"
      and lb: "loop_body h l N N2 q = Inr (Next, q1)"
      and p: "Parent (h ! N) = Some p"
      and r: "if p \<noteq> R then walk_up' h R l p (Some N) q1 (saved @ [Next]) = Some y
              else (q', saved') = (q1, saved @ [Next])"
      by (auto split: if_splits sum.splits option.splits)
    from loop_body_Inr[OF lb] have nx: "0 \<le> Next" "Next < int (length (Children (h ! N)))"
      and nx2: "\<And>n2. N2 = Some n2 \<Longrightarrow> Children (h ! N) ! nat Next = Some n2"
      by (auto split: option.splits)
    have po: "path_ok h N (rev (saved @ [Next]))"
    proof (cases N2)
      case None
      with pre N nx show ?thesis by simp
    next
      case (Some n2)
      with pre nx2[OF Some] N nx show ?thesis by simp
    qed
    show "\<exists>n. Children (h ! R) = [Some n] \<and> path_ok h n (rev saved')"
    proof (cases "p \<noteq> R")
      case True
      with r have w: "walk_up' h R l p (Some N) q1 (saved @ [Next]) = Some y" by simp
      from step(1)[OF w] ok po y show ?thesis by simp
    next
      case False
      with r have s: "saved' = saved @ [Next]" and pR: "p = R" by simp_all
      from ok N p pR have "Some N \<in> set (Children (h ! R))" "length (Children (h ! R)) = 1"
        unfolding heap_ok_def by blast+
      then have "Children (h ! R) = [Some N]"
        by (cases "Children (h ! R)") auto
      with po s show ?thesis by simp
    qed
  qed
qed

lemma bfs_inv_makeChooser:
  assumes "bfs_inv g None" "makeChooser g = Some (Inr (co, g'))"
  shows "bfs_inv g' co"
proof -
  from assms(1) have ok: "heap_ok (Heap g) (Root g)" and tn: "TotalNodes g + 1 = int (length (Heap g))"
    by (simp_all add: bfs_inv_def)
  from ok have R: "Root g < length (Heap g)" unfolding heap_ok_def by blast
  from assms(2) have same: "Heap g' = Heap g" "Root g' = Root g" "TotalNodes g' = TotalNodes g"
    by (auto simp: makeChooser_def split: if_splits prod.splits option.splits sum.splits)
  show ?thesis
  proof (cases co)
    case None
    with ok tn same show ?thesis by (simp add: bfs_inv_def)
  next
    case (Some c)
    have "chooser_ok (Heap g) c"
    proof (cases "Started g")
      case False
      with assms(2) Some have "c = BFSChooser_new g"
        by (auto simp: makeChooser_def split: if_splits)
      with R show ?thesis by (simp add: chooser_ok_def BFSChooser_new_def)
    next
      case True
      with assms(2) Some obtain N l q q' saved where
        w: "walk_up (Heap g) (Root g) l N None q [] = Some (Inr (q', saved))"
        and c: "c = (BFSChooser_new g)\<lparr> SavedChoices := saved \<rparr>"
        by (auto simp: makeChooser_def split: if_splits prod.splits option.splits sum.splits)
      from walk_up_path[OF w] ok obtain n where
        "Children (Heap g ! Root g) = [Some n]" "path_ok (Heap g) n (rev saved)" by auto
      with c R show ?thesis
        by (simp add: chooser_ok_def BFSChooser_new_def vector_at_def)
    qed
    with ok tn same Some show ?thesis by (simp add: bfs_inv_def)
  qed
qed

lemma vector_at_Inr:
  "vector_at xs i = Inr x \<longleftrightarrow> 0 \<le> i \<and> i < int (length xs) \<and> xs ! nat i = x"
  by (auto simp: vector_at_def)

lemma chooseInternal_replay:
  assumes "chooseInternal g c n rc = Inr (k, g', c')"
    and "vector_at (Children (Heap g ! Current c)) (LastChoice c) = Inr (Some N)"
  shows "g' = g \<and> SavedChoices c \<noteq> [] \<and> k = last (SavedChoices c) \<and>
         N < length (Heap g) \<and> n = int (length (Children (Heap g ! N))) \<and>
         c' = c\<lparr> Current := N, LastChoice := k, Level := Level c + 1,
                 SavedChoices := butlast (SavedChoices c) \<rparr>"
  using assms
  by (auto simp: chooseInternal_def Let_def split: if_splits)

lemma chooseInternal_fresh:
  assumes "chooseInternal g c n rc = Inr (k, g', c')"
    and "vector_at (Children (Heap g ! Current c)) (LastChoice c) = Inr None"
  shows "SavedChoices c = [] \<and> 0 \<le> n \<and> Current c < length (Heap g) \<and>
         (\<exists>r'. rc (Rand g) = Inr (k, r') \<and>
            g' = g\<lparr> TotalNodes := TotalNodes g + 1,
                    Heap := set_child
                              (Heap g @ [\<lparr> Parent = Some (Current c),
                                           Children = replicate (nat n) None \<rparr>])
                              (Current c) (LastChoice c) (length (Heap g)),
                    Rand := r',
                    PendingPaths :=
                      (if n > 1 then PriQ_insert (length (Heap g)) (Level c) (PendingPaths g)
                       else PendingPaths g) \<rparr>) \<and>
         c' = c\<lparr> Current := length (Heap g), LastChoice := k, Level := Level c + 1 \<rparr>"
  using assms
  by (auto simp: chooseInternal_def Let_def split: if_splits sum.splits)

lemma chooseInternal_cases:
  assumes "chooseInternal g c n rc = Inr (k, g', c')"
  shows "Current c < length (Heap g) \<and>
         (\<exists>s. vector_at (Children (Heap g ! Current c)) (LastChoice c) = Inr s)"
  using assms
  by (auto simp: chooseInternal_def split: if_splits sum.splits)

lemma bfs_inv_chooseInternal:
  assumes inv: "bfs_inv g (Some c)"
    and ch: "chooseInternal g c n rc = Inr (k, g', c')"
  shows "bfs_inv g' (Some c')"
proof -
  from inv have ok: "heap_ok (Heap g) (Root g)" and tn: "TotalNodes g + 1 = int (length (Heap g))"
    and cok: "chooser_ok (Heap g) c"
    by (simp_all add: bfs_inv_def)
  from chooseInternal_cases[OF ch] obtain s where
    cur: "Current c < length (Heap g)"
    and s: "vector_at (Children (Heap g ! Current c)) (LastChoice c) = Inr s" by blast
  show ?thesis
  proof (cases s)
    case None
    from chooseInternal_fresh[OF ch s[unfolded None]] obtain r' where
      sv: "SavedChoices c = []" and n0: "0 \<le> n"
      and g': "g' = g\<lparr> TotalNodes := TotalNodes g + 1,
                    Heap := set_child
                              (Heap g @ [\<lparr> Parent = Some (Current c),
                                           Children = replicate (nat n) None \<rparr>])
                              (Current c) (LastChoice c) (length (Heap g)),
                    Rand := r',
                    PendingPaths :=
                      (if n > 1 then PriQ_insert (length (Heap g)) (Level c) (PendingPaths g)
                       else PendingPaths g) \<rparr>"
      and c': "c' = c\<lparr> Current := length (Heap g), LastChoice := k, Level := Level c + 1 \<rparr>"
      by blast
    from s None have i: "0 \<le> LastChoice c" "LastChoice c < int (length (Children (Heap g ! Current c)))"
      "Children (Heap g ! Current c) ! nat (LastChoice c) = None"
      by (simp_all add: vector_at_Inr)
    have "heap_ok (set_child (Heap g @ [\<lparr> Parent = Some (Current c),
                                           Children = replicate (nat n) None \<rparr>])
                              (Current c) (LastChoice c) (length (Heap g))) (Root g)"
      by (rule heap_ok_link[OF ok cur i]) simp_all
    with g' c' tn sv show ?thesis
      by (simp add: bfs_inv_def chooser_ok_def length_set_child)
  next
    case (Some N)
    from chooseInternal_replay[OF ch s[unfolded Some]] have
      g': "g' = g" and sv: "SavedChoices c \<noteq> []" and k: "k = last (SavedChoices c)"
      and N: "N < length (Heap g)"
      and c': "c' = c\<lparr> Current := N, LastChoice := k, Level := Level c + 1,
                 SavedChoices := butlast (SavedChoices c) \<rparr>"
      by simp_all
    from cok sv s Some have po: "path_ok (Heap g) N (rev (SavedChoices c))"
      by (auto simp: chooser_ok_def)
    from sv k have rv: "rev (SavedChoices c) = k # rev (butlast (SavedChoices c))"
      by (metis append_butlast_last_id rev.simps(2) rev_rev_ident rev_swap)
    have "chooser_ok (Heap g) c'"
    proof (cases "butlast (SavedChoices c) = []")
      case True
      with c' N show ?thesis by (simp add: chooser_ok_def)
    next
      case False
      with po rv obtain m where "0 \<le> k" "k < int (length (Children (Heap g ! N)))"
        "Children (Heap g ! N) ! nat k = Some m" "path_ok (Heap g) m (rev (butlast (SavedChoices c)))"
        by (auto split: option.splits)
      with c' N show ?thesis by (auto simp: chooser_ok_def vector_at_def)
    qed
    with ok tn g' show ?thesis by (simp add: bfs_inv_def)
  qed
qed

lemma bfs_inv_dtor:
  assumes inv: "bfs_inv g (Some c)"
    and d: "BFSChooser_dtor g c = Inr g'"
  shows "bfs_inv g' None"
proof -
  from inv have ok: "heap_ok (Heap g) (Root g)" and tn: "TotalNodes g + 1 = int (length (Heap g))"
    by (simp_all add: bfs_inv_def)
  from d obtain s where cur: "Current c < length (Heap g)"
    and s: "vector_at (Children (Heap g ! Current c)) (LastChoice c) = Inr s"
    by (auto simp: BFSChooser_dtor_def split: if_splits sum.splits)
  show ?thesis
  proof (cases s)
    case None
    with d s have g': "g' = g\<lparr> Heap := set_child (Heap g @ [\<lparr> Parent = None, Children = [] \<rparr>])
                               (Current c) (LastChoice c) (length (Heap g)),
                     TotalNodes := TotalNodes g + 1,
                     Choosing := False \<rparr>"
      by (auto simp: BFSChooser_dtor_def split: if_splits)
    from s None have i: "0 \<le> LastChoice c" "LastChoice c < int (length (Children (Heap g ! Current c)))"
      "Children (Heap g ! Current c) ! nat (LastChoice c) = None"
      by (simp_all add: vector_at_Inr)
    have "heap_ok (set_child (Heap g @ [\<lparr> Parent = None, Children = [] \<rparr>])
                               (Current c) (LastChoice c) (length (Heap g))) (Root g)"
      by (rule heap_ok_link[OF ok cur i, where m = 0]) simp_all
    with g' tn show ?thesis
      by (simp add: bfs_inv_def length_set_child)
  next
    case (Some N)
    with d s have "g' = g\<lparr> Choosing := False \<rparr>"
      by (auto simp: BFSChooser_dtor_def split: if_splits)
    with ok tn show ?thesis by (simp add: bfs_inv_def)
  qed
qed

lemma bfs_reach_inv: "bfs_reach L g co \<Longrightarrow> bfs_inv g co"
proof (induction rule: bfs_reach.induct)
  case (reach_new Seed)
  show ?case by (rule bfs_inv_new)
next
  case (reach_makeChooser g co g')
  then show ?case using bfs_inv_makeChooser by blast
next
  case (reach_choose g c n k g' c')
  then show ?case unfolding BFS_choose_def using bfs_inv_chooseInternal by blast
next
  case (reach_flip g c b g' c')
  from reach_flip(2) obtain k where "BFS_choose L g c 2 = Inr (k, g', c')"
    by (auto simp: BFS_flip_def split: sum.splits)
  with reach_flip(3) show ?case unfolding BFS_choose_def using bfs_inv_chooseInternal by blast
next
  case (reach_chooseWeighted g c Probs k g' c')
  then show ?case unfolding BFS_chooseWeighted_def using bfs_inv_chooseInternal by blast
next
  case (reach_chooseUnimportant g c v g' c')
  from reach_chooseUnimportant(2) obtain r' where "g' = g\<lparr> Rand := r' \<rparr>" "c' = c"
    by (auto simp: BFS_chooseUnimportant_def split: sum.splits)
  with reach_chooseUnimportant(3) show ?case by (simp add: bfs_inv_def)
next
  case (reach_dtor g c g')
  then show ?case using bfs_inv_dtor by blast
qed

lemma to_int_le: "0 \<le> x \<Longrightarrow> to_int x \<le> x"
proof -
  assume "0 \<le> x"
  then have "(x + 2 ^ 31) mod 2 ^ 32 \<le> x + 2 ^ 31"
    by (intro zmod_le_nonneg_dividend) simp
  then show ?thesis by (simp add: to_int_def)
qed

lemma uniform_choice_range:
  assumes "lib_ok L" "0 < n" "uniform_int_distribution L 0 (to_int (n - 1)) r = Inr (k, r')"
  shows "0 \<le> k \<and> k < n"
proof -
  from assms(3) have le: "0 \<le> to_int (n - 1)" and u: "uniform_int L 0 (to_int (n - 1)) r = (k, r')"
    by (auto simp: uniform_int_distribution_def split: if_splits)
  from uniform_draw_range[OF assms(1) le, of r] u le
  have "0 \<le> k" "k \<le> to_int (n - 1)" by (auto simp: uniform_int_distribution_def)
  moreover have "to_int (n - 1) \<le> n - 1" using assms(2) by (intro to_int_le) simp
  ultimately show ?thesis by simp
qed

lemma discrete_distribution_of_length:
  "discrete_distribution_of ws = Inr d \<Longrightarrow> ws \<noteq> [] \<Longrightarrow> length (probabilities d) = length ws"
  by (auto simp: discrete_distribution_of_def split: if_splits)

lemma weighted_choice_range:
  assumes "lib_ok L" "Probs \<noteq> []"
    and "(case discrete_distribution_of (map real_of_int Probs) of
            Inl e \<Rightarrow> Inl e | Inr d \<Rightarrow> Inr (discrete_draw L d r)) = Inr (k, r')"
  shows "0 \<le> k \<and> k < int (length Probs)"
proof -
  from assms(3) obtain d where d: "discrete_distribution_of (map real_of_int Probs) = Inr d"
    and k: "discrete_draw L d r = (k, r')"
    by (auto split: sum.splits)
  from discrete_distribution_of_length[OF d] assms(2)
  have len: "length (probabilities d) = length Probs" by simp
  with assms(2) have "probabilities d \<noteq> []" by auto
  from discrete_draw_range[OF assms(1) this, of r] k len show ?thesis by simp
qed

lemma chooseInternal_range:
  assumes inv: "bfs_inv g (Some c)"
    and ch: "chooseInternal g c n rc = Inr (k, g', c')"
    and rc: "\<And>r k r'. rc r = Inr (k, r') \<Longrightarrow> 0 \<le> k \<and> k < n"
  shows "0 \<le> k \<and> k < n"
proof -
  from inv have cok: "chooser_ok (Heap g) c" by (simp add: bfs_inv_def)
  from chooseInternal_cases[OF ch] obtain s where
    s: "vector_at (Children (Heap g ! Current c)) (LastChoice c) = Inr s" by blast
  show ?thesis
  proof (cases s)
    case None
    from chooseInternal_fresh[OF ch s[unfolded None]] rc show ?thesis by blast
  next
    case (Some N)
    from chooseInternal_replay[OF ch s[unfolded Some]] have
      sv: "SavedChoices c \<noteq> []" and k: "k = last (SavedChoices c)"
      and n: "n = int (length (Children (Heap g ! N)))"
      by simp_all
    from cok sv s Some have po: "path_ok (Heap g) N (rev (SavedChoices c))"
      by (auto simp: chooser_ok_def)
    from sv k have rv: "rev (SavedChoices c) = k # rev (butlast (SavedChoices c))"
      by (metis append_butlast_last_id rev.simps(2) rev_rev_ident rev_swap)
    from po n show ?thesis unfolding rv by simp
  qed
qed

lemma visit_length:
  "visit nd n ws = Inr nd' \<Longrightarrow> int (length (WChildren nd')) = n"
  by (auto simp: visit_def resize_def Let_def split: if_splits sum.splits)

lemma WS_choose_range:
  assumes "WS_choose L w t n ws = Inr (k, w', t')"
  shows "0 \<le> k \<and> k < n"
proof -
  from assms obtain current where v: "visit (WHeap w ! last (Trail t)) n ws = Inr current"
    and k: "0 \<le> k \<and> k < int (length (WChildren current))"
    by (auto simp: WS_choose_def Let_def split: if_splits sum.splits option.splits)
  with visit_length[OF v] show ?thesis by simp
qed


subsection \<open>More on the example states\<close>

lemma bfs_example_reach: "bfs_reach counter_lib bfs_example_guide None"
proof -
  from bfs_example_guide_run obtain c1 g1 c2 g2 where
    m: "makeChooser (BFSGuide_new counter_lib 0) = Some (Inr (Some c1, g1))"
    and c: "BFS_choose counter_lib g1 c1 3 = Inr (0, g2, c2)"
    and d: "BFSChooser_dtor g2 c2 = Inr bfs_example_guide"
    by blast
  have "bfs_reach counter_lib g1 (Some c1)"
    by (rule reach_makeChooser[OF reach_new m])
  then have "bfs_reach counter_lib g2 (Some c2)"
    by (rule reach_choose[OF _ _ c]) simp
  then show ?thesis
    by (rule reach_dtor[OF _ d])
qed

lemma bfs_example_reach_active:
  "bfs_reach counter_lib (bfs_example_guide\<lparr> MaxSavedLevel := 0, Choosing := True \<rparr>)
     (Some bfs_example_chooser)"
  by (rule reach_makeChooser[OF bfs_example_reach bfs_example_makeChooser])

lemma bfs_example_replay:
  "BFS_choose counter_lib (bfs_example_guide\<lparr> MaxSavedLevel := 0, Choosing := True \<rparr>)
     bfs_example_chooser 3
   = Inr (2, bfs_example_guide\<lparr> MaxSavedLevel := 0, Choosing := True \<rparr>,
          \<lparr> Current = 1, LastChoice = 2, Level = 1, SavedChoices = [] \<rparr>)"
  by (simp add: BFS_choose_def chooseInternal_def bfs_example_guide_def bfs_example_chooser_def
      vector_at_def)

lemma bfs_leaf_guide_reach: "bfs_reach counter_lib bfs_leaf_guide None"
proof -
  have m: "makeChooser (BFSGuide_new counter_lib 0)
             = Some (Inr (Some (BFSChooser_new (BFSGuide_new counter_lib 0)),
                          (BFSGuide_new counter_lib 0)\<lparr> Started := True, Choosing := True \<rparr>))"
    by (simp add: makeChooser_def BFSGuide_new_def)
  have d: "BFSChooser_dtor ((BFSGuide_new counter_lib 0)\<lparr> Started := True, Choosing := True \<rparr>)
             (BFSChooser_new (BFSGuide_new counter_lib 0)) = Inr bfs_leaf_guide"
    by (simp add: BFSChooser_dtor_def BFSGuide_new_def BFSChooser_new_def vector_at_def
        set_child_def bfs_leaf_guide_def counter_lib_def)
  show ?thesis
    by (rule reach_dtor[OF reach_makeChooser[OF reach_new m] d])
qed


subsection \<open>The sampler's destructor\<close>

lemma occupied_slots_Cons:
  "occupied_slots (c # cs) = (if c \<noteq> None then [0] else []) @ map Suc (occupied_slots cs)"
proof -
  have "[0..<length (c # cs)] = 0 # map Suc [0..<length cs]"
    by (simp add: upt_conv_Cons map_Suc_upt del: upt_Suc)
  then show ?thesis
    by (simp add: occupied_slots_def filter_map comp_def)
qed

lemma occupied_total_sum:
  "occupied_total h lst i cs (occ, tot) = Inr (occ', tot') \<Longrightarrow>
     occ' = occ + sum_list (map (\<lambda>j. weight_of lst (i + j)) (occupied_slots cs))"
proof (induction cs arbitrary: i occ tot)
  case Nil
  then show ?case by (simp add: occupied_slots_def)
next
  case (Cons child cs)
  from Cons.prems obtain w where w: "weight lst i = Inr w"
    by (auto split: sum.splits)
  then have wo: "weight_of lst i = w" by (simp add: weight_of_def)
  show ?case
  proof (cases child)
    case None
    with Cons.prems w have "occupied_total h lst (Suc i) cs (occ, tot) = Inr (occ', tot')"
      by simp
    from Cons.IH[OF this] None show ?thesis
      by (simp add: occupied_slots_Cons comp_def)
  next
    case (Some ch)
    with Cons.prems w obtain s where
      "occupied_total h lst (Suc i) cs (occ + w, tot + s * w) = Inr (occ', tot')"
      by (auto split: if_splits option.splits)
    from Cons.IH[OF this] Some wo show ?thesis
      by (simp add: occupied_slots_Cons comp_def)
  qed
qed

lemma collapse_fold:
  "collapse h ts = Inr (h', t') \<Longrightarrow> h' = fold size_update ts h \<and> t' = []"
proof (induction ts arbitrary: h)
  case Nil
  then show ?case by simp
next
  case (Cons lst rest)
  from Cons.prems obtain occ tot s where
    ot: "occupied_total h (h ! lst) 0 (WChildren (h ! lst)) (0, 0) = Inr (occ, tot)"
    and s: "fdiv (real (length (WChildren (h ! lst)))) occ = Inr s"
    and r: "collapse (h[lst := (h ! lst)\<lparr> SizeEstimate := Some s \<rparr>]) rest = Inr (h', t')"
    by (auto split: if_splits sum.splits)
  from occupied_total_sum[OF ot] have "occ = occupied_weight (h ! lst)"
    by (simp add: occupied_weight_def)
  with s have "h[lst := (h ! lst)\<lparr> SizeEstimate := Some s \<rparr>] = size_update lst h"
    by (auto simp: fdiv_def size_update_def split: if_splits)
  with Cons.IH[OF r] show ?case by simp
qed

lemma length_fold_size_update: "length (fold size_update ts h) = length h"
  by (induction ts arbitrary: h) (simp_all add: size_update_def)

lemma fold_size_update_nth:
  assumes "distinct ts" "\<forall>a\<in>set ts. a < length h" "x < length h"
  shows "fold size_update ts h ! x =
           (if x \<in> set ts
            then (h ! x)\<lparr> SizeEstimate :=
                   Some (real (length (WChildren (h ! x))) / occupied_weight (h ! x)) \<rparr>
            else h ! x)"
  using assms
proof (induction ts arbitrary: h)
  case Nil
  then show ?case by simp
next
  case (Cons a ts)
  let ?h = "size_update a h"
  have len: "length ?h = length h" by (simp add: size_update_def)
  have a: "a < length h" "a \<notin> set ts" "distinct ts" using Cons.prems by simp_all
  have nth: "?h ! y = (if y = a
                then (h ! a)\<lparr> SizeEstimate :=
                   Some (real (length (WChildren (h ! a))) / occupied_weight (h ! a)) \<rparr>
                else h ! y)" if "y < length h" for y
    using that a(1) by (simp add: size_update_def nth_list_update)
  have "fold size_update ts ?h ! x =
           (if x \<in> set ts
            then (?h ! x)\<lparr> SizeEstimate :=
                   Some (real (length (WChildren (?h ! x))) / occupied_weight (?h ! x)) \<rparr>
            else ?h ! x)"
    using Cons.prems a len by (intro Cons.IH) simp_all
  with nth[OF Cons.prems(3)] a(2) show ?case by auto
qed

lemma ws_example_active_run:
  "\<exists>g1 c1.
     WS_chooseWeighted counter_lib (WeightedSamplerGuide_new counter_lib 0)
        (WS_makeChooser (WeightedSamplerGuide_new counter_lib 0)) [1, 3] = Inr (0, g1, c1) \<and>
     WS_choose1 counter_lib g1 c1 1 = Inr (0, ws_example_active, \<lparr> Trail = [0, 1, 2] \<rparr>)"
  by (simp add: WS_chooseWeighted_def WS_choose1_def WS_choose_def WeightedSamplerGuide_new_def
      WS_makeChooser_def visit_def WNode_new_def initial_sample_def
      discrete_distribution_default_def discrete_distribution_of_def fdiv_def
      discrete_draw_def counter_lib_def resize_def ws_example_active_def eval_nat_numeral)

lemma ws_example_dtor:
  "WeightedSamplerChooser_dtor ws_example_active \<lparr> Trail = [0, 1, 2] \<rparr> =
     Inr (ws_example_collapsed, \<lparr> Trail = [] \<rparr>)"
  by (simp add: WeightedSamplerChooser_dtor_def ws_example_active_def weight_def fdiv_def
      discrete_distribution_default_def ws_example_collapsed_def)


text \<open>
  Disposing a sampler chooser: whenever the destructor completes, the deepest
  trail node has its size estimate set to 1, then each remaining trail node,
  deepest first, has its size estimate set to \<^verbatim>\<open>Children.size() / occupied\<close>,
  \<^verbatim>\<open>occupied\<close> being the sum of \<^verbatim>\<open>weight(i)\<close> over the indices of its
  non-null child slots, nothing else of the guide changes, and the trail is
  empty afterwards.  For a trail of distinct nodes the final estimates are
  these values node by node.
\<close>

lemma collapse_completed:
  assumes "WeightedSamplerChooser_dtor g c = Inr (g', c')"
  shows "Trail c \<noteq> [] \<and>
         g' = g\<lparr> WHeap :=
                   fold size_update (rev (butlast (Trail c)))
                     ((WHeap g)[last (Trail c) :=
                        (WHeap g ! last (Trail c))\<lparr> SizeEstimate := Some 1 \<rparr>]) \<rparr> \<and>
         Trail c' = [] \<and>
         (distinct (Trail c) \<and> (\<forall>a\<in>set (Trail c). a < length (WHeap g)) \<longrightarrow>
            SizeEstimate (WHeap g' ! last (Trail c)) = Some 1 \<and>
            (\<forall>a\<in>set (butlast (Trail c)).
               SizeEstimate (WHeap g' ! a) =
                 Some (real (length (WChildren (WHeap g ! a))) / occupied_weight (WHeap g ! a))))"
proof -
  let ?d = "last (Trail c)"
  let ?h0 = "(WHeap g)[?d := (WHeap g ! ?d)\<lparr> SizeEstimate := Some 1 \<rparr>]"
  from assms obtain h' t' where ne: "Trail c \<noteq> []"
    and co: "collapse ?h0 (rev (butlast (Trail c))) = Inr (h', t')"
    and g': "g' = g\<lparr> WHeap := h' \<rparr>" and c': "c' = c\<lparr> Trail := rev t' \<rparr>"
    by (auto simp: WeightedSamplerChooser_dtor_def split: if_splits sum.splits)
  from collapse_fold[OF co] have h': "h' = fold size_update (rev (butlast (Trail c))) ?h0"
    and t': "t' = []" by simp_all
  have pointwise:
    "SizeEstimate (WHeap g' ! ?d) = Some 1 \<and>
     (\<forall>a\<in>set (butlast (Trail c)).
        SizeEstimate (WHeap g' ! a) =
          Some (real (length (WChildren (WHeap g ! a))) / occupied_weight (WHeap g ! a)))"
    if dist: "distinct (Trail c)" and valid: "\<forall>a\<in>set (Trail c). a < length (WHeap g)"
  proof -
    have tr: "Trail c = butlast (Trail c) @ [?d]" using ne by simp
    have d_notin: "?d \<notin> set (butlast (Trail c))"
      using dist tr by (metis distinct_butlast not_distinct_conv_prefix append.right_neutral)
    have d_valid: "?d < length (WHeap g)" using valid ne by simp
    have b_valid: "\<forall>a\<in>set (rev (butlast (Trail c))). a < length ?h0"
      using valid by (auto dest: in_set_butlastD)
    have b_dist: "distinct (rev (butlast (Trail c)))"
      using dist by (simp add: distinct_butlast)
    have nth: "h' ! x =
           (if x \<in> set (rev (butlast (Trail c)))
            then (?h0 ! x)\<lparr> SizeEstimate :=
                   Some (real (length (WChildren (?h0 ! x))) / occupied_weight (?h0 ! x)) \<rparr>
            else ?h0 ! x)" if "x < length (WHeap g)" for x
      unfolding h' using that by (intro fold_size_update_nth[OF b_dist b_valid]) simp
    have 1: "SizeEstimate (WHeap g' ! ?d) = Some 1"
      using nth[OF d_valid] d_notin d_valid g' by simp
    have 2: "SizeEstimate (WHeap g' ! a) =
          Some (real (length (WChildren (WHeap g ! a))) / occupied_weight (WHeap g ! a))"
      if "a \<in> set (butlast (Trail c))" for a
    proof -
      from that d_notin have ne_d: "a \<noteq> ?d" by auto
      from that valid have "a < length (WHeap g)" by (auto dest: in_set_butlastD)
      from nth[OF this] that ne_d g' show ?thesis by simp
    qed
    from 1 2 show ?thesis by blast
  qed
  from h' t' ne g' c' pointwise show ?thesis by simp
qed


lemma collapse_completed_example:
  "WeightedSamplerChooser_dtor ws_example_active \<lparr> Trail = [0, 1, 2] \<rparr> =
     Inr (ws_example_collapsed, \<lparr> Trail = [] \<rparr>) \<and>
   Trail \<lparr> Trail = [0, 1, 2] \<rparr> \<noteq> [] \<and>
   ws_example_collapsed =
     ws_example_active\<lparr> WHeap :=
       fold size_update (rev (butlast (Trail \<lparr> Trail = [0, 1, 2] \<rparr>)))
         ((WHeap ws_example_active)[last (Trail \<lparr> Trail = [0, 1, 2] \<rparr>) :=
            (WHeap ws_example_active ! last (Trail \<lparr> Trail = [0, 1, 2] \<rparr>))
              \<lparr> SizeEstimate := Some 1 \<rparr>]) \<rparr> \<and>
   Trail \<lparr> Trail = [] \<rparr> = [] \<and>
   map SizeEstimate (WHeap ws_example_collapsed) = [Some 26, Some 1, Some 1]"
proof -
  have "map SizeEstimate (WHeap ws_example_collapsed) = [Some 26, Some 1, Some 1]"
    by (simp add: ws_example_collapsed_def)
  with collapse_completed[OF ws_example_dtor] ws_example_dtor show ?thesis
    by blast
qed

text \<open>
  A visited node that still holds the default sampler and has two child slots
  or more: the destructor's loop asks \<^verbatim>\<open>weight(1)\<close> of it, which reads past
  the one probability of the default sampler.  So the destructor does not
  complete when such a node is on the trail above the deepest node.
\<close>

lemma occupied_total_unweighted:
  assumes "visited nd" "ChildSampler nd = discrete_distribution_default"
  shows "occupied_total h nd (Suc i) (c # cs) acc = Inl UndefinedBehaviour"
  using assms
  by (cases acc) (simp add: weight_def discrete_distribution_default_def)

lemma occupied_total_unweighted0:
  assumes "visited nd" "ChildSampler nd = discrete_distribution_default"
  shows "occupied_total h nd 0 (c0 # c1 # cs) acc = Inl UndefinedBehaviour"
proof (cases acc)
  case (Pair occ tot)
  have w: "weight nd 0 = Inr 1"
    using assms by (simp add: weight_def discrete_distribution_default_def)
  show ?thesis
    using w occupied_total_unweighted[OF assms, of h 0 c1 cs] Pair
    by (auto split: option.splits)
qed

lemma collapse_unweighted:
  assumes "a \<in> set xs" "a < length h" "visited (h ! a)"
    and "ChildSampler (h ! a) = discrete_distribution_default"
    and "2 \<le> length (WChildren (h ! a))"
  shows "\<exists>e. collapse h xs = Inl e"
  using assms
proof (induction xs arbitrary: h)
  case Nil
  then show ?case by simp
next
  case (Cons x xs)
  show ?case
  proof (cases "x = a")
    case True
    from Cons.prems(5) obtain c0 c1 cs where cs: "WChildren (h ! a) = c0 # c1 # cs"
      by (cases "WChildren (h ! a)"; cases "tl (WChildren (h ! a))") auto
    have "occupied_total h (h ! a) 0 (WChildren (h ! a)) (0, 0) = Inl UndefinedBehaviour"
      unfolding cs by (rule occupied_total_unweighted0[OF Cons.prems(3,4)])
    with True Cons.prems(2) show ?thesis by simp
  next
    case False
    with Cons.prems(1) have a: "a \<in> set xs" by simp
    show ?thesis
    proof (cases "collapse h (x # xs)")
      case (Inl e)
      then show ?thesis by blast
    next
      case (Inr r)
      then obtain s where x: "x < length h"
        and r: "collapse (h[x := (h ! x)\<lparr> SizeEstimate := Some s \<rparr>]) xs = Inr r"
        by (auto split: if_splits sum.splits)
      let ?h = "h[x := (h ! x)\<lparr> SizeEstimate := Some s \<rparr>]"
      have "?h ! a = h ! a" using False by simp
      with Cons.IH[OF a, of ?h] Cons.prems(2-5) have "\<exists>e. collapse ?h xs = Inl e" by simp
      with r show ?thesis by simp
    qed
  qed
qed

text \<open>The state \<open>ws_flip_guide\<close> is the state after one \<^verbatim>\<open>flip\<close> on a new guide.\<close>

lemma ws_flip_run:
  "WS_flip counter_lib (WeightedSamplerGuide_new counter_lib 0)
     (WS_makeChooser (WeightedSamplerGuide_new counter_lib 0))
   = Inr (False, ws_flip_guide, \<lparr> Trail = [0, 1] \<rparr>)"
  by (simp add: WS_flip_def WS_choose1_def WS_choose_def WeightedSamplerGuide_new_def
      WS_makeChooser_def visit_def WNode_new_def resize_def initial_sample_def
      discrete_distribution_default_def discrete_draw_def counter_lib_def ws_flip_guide_def
      Let_def eval_nat_numeral)

subsection \<open>Exhaustive exploration by the BFS guide\<close>





































lemma link_set_child: "set_child (h @ [nd]) a (int i) (length h) = link h a i nd"
  by (simp add: link_def)







lemma to_int_small: "0 \<le> x \<Longrightarrow> x < 2 ^ 31 \<Longrightarrow> to_int x = x"
  by (simp add: to_int_def)

lemma arity_fits: "0 < n \<Longrightarrow> int n \<le> 2 ^ 31 \<Longrightarrow> 0 \<le> to_int (int n - 1)"
  by (subst to_int_small) simp_all



























subsection \<open>The range of the choices returned\<close>

text \<open>
  Where a call is defined and returns, the value is in range: \<^verbatim>\<open>choose(n)\<close>
  with \<open>n > 0\<close> returns \<open>k\<close> with \<open>0 \<le> k < n\<close>, \<^verbatim>\<open>chooseWeighted(w)\<close>
  with \<open>w\<close> non-empty returns \<open>k\<close> with \<open>0 \<le> k < |w|\<close>, and \<^verbatim>\<open>flip\<close> is
  \<^verbatim>\<open>choose(2)\<close> returning 0 or 1 read as a truth value.  For the BFS chooser
  this holds in every state of a guide in use, so also when the value is a
  replayed choice popped from \<^verbatim>\<open>SavedChoices\<close>.  The calls of the BFS and
  default choosers are defined only where the \<^verbatim>\<open>int\<close> that \<open>n - 1\<close> is
  narrowed to is not negative.
\<close>

lemma returned_choices_in_range:
  assumes "lib_ok L"
  shows "(bfs_reach L g (Some c) \<and> 0 < n \<and> BFS_choose L g c n = Inr (k, g', c')
            \<longrightarrow> 0 \<le> k \<and> k < n) \<and>
         (bfs_reach L g (Some c) \<and> Probs \<noteq> [] \<and> BFS_chooseWeighted L g c Probs = Inr (k, g', c')
            \<longrightarrow> 0 \<le> k \<and> k < int (length Probs)) \<and>
         (bfs_reach L g (Some c) \<and> BFS_flip L g c = Inr (b, g', c')
            \<longrightarrow> (\<exists>j. BFS_choose L g c 2 = Inr (j, g', c') \<and> (j = 0 \<or> j = 1) \<and> b = (j = 1))) \<and>
         (0 < n \<and> Default_choose L d n = Inr (k, d') \<longrightarrow> 0 \<le> k \<and> k < n) \<and>
         (Probs \<noteq> [] \<and> Default_chooseWeighted L d Probs = Inr (k, d')
            \<longrightarrow> 0 \<le> k \<and> k < int (length Probs)) \<and>
         (Default_flip L d = Inr (b, d')
            \<longrightarrow> (\<exists>j. Default_choose L d 2 = Inr (j, d') \<and> (j = 0 \<or> j = 1) \<and> b = (j = 1))) \<and>
         (0 < n \<and> WS_choose1 L w t n = Inr (k, w', t') \<longrightarrow> 0 \<le> k \<and> k < n) \<and>
         (Probs \<noteq> [] \<and> WS_chooseWeighted L w t Probs = Inr (k, w', t')
            \<longrightarrow> 0 \<le> k \<and> k < int (length Probs)) \<and>
         (WS_flip L w t = Inr (b, w', t')
            \<longrightarrow> (\<exists>j. WS_choose1 L w t 2 = Inr (j, w', t') \<and> (j = 0 \<or> j = 1) \<and> b = (j = 1)))"
proof -
  have bfs_choose: "0 \<le> k \<and> k < n"
    if "bfs_reach L g (Some c)" "0 < n" "BFS_choose L g c n = Inr (k, g', c')" for g c n k g' c'
    using chooseInternal_range[OF bfs_reach_inv[OF that(1)] that(3)[unfolded BFS_choose_def]]
      uniform_choice_range[OF assms that(2)] by blast
  have bfs_weighted: "0 \<le> k \<and> k < int (length Probs)"
    if "bfs_reach L g (Some c)" "Probs \<noteq> []" "BFS_chooseWeighted L g c Probs = Inr (k, g', c')"
    for g c Probs k g' c'
    using chooseInternal_range[OF bfs_reach_inv[OF that(1)] that(3)[unfolded BFS_chooseWeighted_def]]
      weighted_choice_range[OF assms that(2)] by blast
  have bfs_flip: "\<exists>j. BFS_choose L g c 2 = Inr (j, g', c') \<and> (j = 0 \<or> j = 1) \<and> b = (j = 1)"
    if "bfs_reach L g (Some c)" "BFS_flip L g c = Inr (b, g', c')" for g c b g' c'
  proof -
    from that(2) obtain j where j: "BFS_choose L g c 2 = Inr (j, g', c')" and b: "b = (j \<noteq> 0)"
      by (auto simp: BFS_flip_def split: sum.splits)
    from bfs_choose[OF that(1) _ j] have "j = 0 \<or> j = 1" by auto
    with j b show ?thesis by auto
  qed
  have def_choose: "0 \<le> k \<and> k < n" if "0 < n" "Default_choose L d n = Inr (k, d')" for d n k d'
  proof -
    from that(2) obtain r' where "uniform_int_distribution L 0 (to_int (n - 1)) (DRand d) = Inr (k, r')"
      by (auto simp: Default_choose_def split: sum.splits)
    from uniform_choice_range[OF assms that(1) this] show ?thesis .
  qed
  have def_weighted: "0 \<le> k \<and> k < int (length Probs)"
    if "Probs \<noteq> []" "Default_chooseWeighted L d Probs = Inr (k, d')" for d Probs k d'
  proof -
    from that(2) obtain r' where
      "(case discrete_distribution_of (map real_of_int Probs) of
            Inl e \<Rightarrow> Inl e | Inr dd \<Rightarrow> Inr (discrete_draw L dd (DRand d))) = Inr (k, r')"
      by (auto simp: Default_chooseWeighted_def split: sum.splits prod.splits)
    from weighted_choice_range[OF assms that(1) this] show ?thesis .
  qed
  have def_flip: "\<exists>j. Default_choose L d 2 = Inr (j, d') \<and> (j = 0 \<or> j = 1) \<and> b = (j = 1)"
    if "Default_flip L d = Inr (b, d')" for d b d'
  proof -
    from that obtain j where j: "Default_choose L d 2 = Inr (j, d')" and b: "b = (j \<noteq> 0)"
      by (auto simp: Default_flip_def split: sum.splits)
    from def_choose[OF _ j] have "j = 0 \<or> j = 1" by auto
    with j b show ?thesis by auto
  qed
  have ws_choose: "0 \<le> k \<and> k < n" if "WS_choose1 L w t n = Inr (k, w', t')" for w t n k w' t'
    using WS_choose_range that unfolding WS_choose1_def by blast
  have ws_weighted: "0 \<le> k \<and> k < int (length Probs)"
    if "WS_chooseWeighted L w t Probs = Inr (k, w', t')" for w t Probs k w' t'
    using WS_choose_range that unfolding WS_chooseWeighted_def by blast
  have ws_flip: "\<exists>j. WS_choose1 L w t 2 = Inr (j, w', t') \<and> (j = 0 \<or> j = 1) \<and> b = (j = 1)"
    if "WS_flip L w t = Inr (b, w', t')" for w t b w' t'
  proof -
    from that obtain j where j: "WS_choose1 L w t 2 = Inr (j, w', t')" and b: "b = (j \<noteq> 0)"
      by (auto simp: WS_flip_def split: sum.splits)
    from ws_choose[OF j] have "j = 0 \<or> j = 1" by auto
    with j b show ?thesis by auto
  qed
  show ?thesis
  proof (intro conjI)
    show "bfs_reach L g (Some c) \<and> 0 < n \<and> BFS_choose L g c n = Inr (k, g', c')
            \<longrightarrow> 0 \<le> k \<and> k < n"
      using bfs_choose by blast
    show "bfs_reach L g (Some c) \<and> Probs \<noteq> [] \<and>
          BFS_chooseWeighted L g c Probs = Inr (k, g', c')
            \<longrightarrow> 0 \<le> k \<and> k < int (length Probs)"
      using bfs_weighted by blast
    show "bfs_reach L g (Some c) \<and> BFS_flip L g c = Inr (b, g', c')
            \<longrightarrow> (\<exists>j. BFS_choose L g c 2 = Inr (j, g', c') \<and> (j = 0 \<or> j = 1) \<and> b = (j = 1))"
      using bfs_flip by blast
    show "0 < n \<and> Default_choose L d n = Inr (k, d') \<longrightarrow> 0 \<le> k \<and> k < n"
      using def_choose by blast
    show "Probs \<noteq> [] \<and> Default_chooseWeighted L d Probs = Inr (k, d')
            \<longrightarrow> 0 \<le> k \<and> k < int (length Probs)"
      using def_weighted by blast
    show "Default_flip L d = Inr (b, d')
            \<longrightarrow> (\<exists>j. Default_choose L d 2 = Inr (j, d') \<and> (j = 0 \<or> j = 1) \<and> b = (j = 1))"
      using def_flip by blast
    show "0 < n \<and> WS_choose1 L w t n = Inr (k, w', t') \<longrightarrow> 0 \<le> k \<and> k < n"
      using ws_choose by blast
    show "Probs \<noteq> [] \<and> WS_chooseWeighted L w t Probs = Inr (k, w', t')
            \<longrightarrow> 0 \<le> k \<and> k < int (length Probs)"
      using ws_weighted by blast
    show "WS_flip L w t = Inr (b, w', t')
            \<longrightarrow> (\<exists>j. WS_choose1 L w t 2 = Inr (j, w', t') \<and> (j = 0 \<or> j = 1) \<and> b = (j = 1))"
      using ws_flip by blast
  qed
qed


lemma returned_choices_in_range_example:
  "lib_ok counter_lib \<and>
   bfs_reach counter_lib (bfs_example_guide\<lparr> MaxSavedLevel := 0, Choosing := True \<rparr>)
     (Some bfs_example_chooser) \<and> (0::int) < 3 \<and>
   BFS_choose counter_lib (bfs_example_guide\<lparr> MaxSavedLevel := 0, Choosing := True \<rparr>)
     bfs_example_chooser 3
   = Inr (2, bfs_example_guide\<lparr> MaxSavedLevel := 0, Choosing := True \<rparr>,
          \<lparr> Current = 1, LastChoice = 2, Level = 1, SavedChoices = [] \<rparr>) \<and>
   (0::int) \<le> 2 \<and> (2::int) < 3"
  using returned_choices_in_range[OF lib_ok_counter_lib,
      of "bfs_example_guide\<lparr> MaxSavedLevel := 0, Choosing := True \<rparr>" bfs_example_chooser 3 2
         "bfs_example_guide\<lparr> MaxSavedLevel := 0, Choosing := True \<rparr>"
         "\<lparr> Current = 1, LastChoice = 2, Level = 1, SavedChoices = [] \<rparr>"]
    lib_ok_counter_lib bfs_example_reach_active bfs_example_replay
  by simp

subsection \<open>Claims\<close>



text \<open>
  C10.  A bootstrap traversal without \<^verbatim>\<open>choose\<close>, \<^verbatim>\<open>flip\<close> or
  \<^verbatim>\<open>chooseWeighted\<close> calls (it may draw unimportant values, which leave the
  generator in some state \<open>r\<close>): disposing the chooser allocates one node, a
  leaf in the root's only child slot, \<^verbatim>\<open>TotalNodes\<close> goes from 0 to 1, the
  frontier queue stays empty, and every later \<^verbatim>\<open>makeChooser\<close> returns the
  null chooser and leaves the guide as it is.
\<close>

theorem bootstrap_without_choices:
  "\<exists>c g1 g2.
     makeChooser (BFSGuide_new L Seed) = Some (Inr (Some c, g1)) \<and>
     TotalNodes g1 = 0 \<and> length (Heap g1) = 1 \<and> PendingPaths g1 = [] \<and>
     BFSChooser_dtor (g1\<lparr> Rand := r \<rparr>) c = Inr g2 \<and>
     TotalNodes g2 = 1 \<and>
     Heap g2 = [\<lparr> Parent = None, Children = [Some 1] \<rparr>, \<lparr> Parent = None, Children = [] \<rparr>] \<and>
     PendingPaths g2 = [] \<and>
     makeChooser g2 = Some (Inr (None, g2)) \<and>
     all_absent n g2"
proof -
  let ?g2 = "\<lparr> TotalNodes = 1, Root = 0,
       Heap = [\<lparr> Parent = None, Children = [Some 1] \<rparr>, \<lparr> Parent = None, Children = [] \<rparr>],
       PendingPaths = [], MaxSavedLevel = - 1,
       Choosing = False, Started = True, Rand = r \<rparr>"
  have m: "makeChooser ?g2 = Some (Inr (None, ?g2))"
    by (simp add: makeChooser_def removeHead_def)
  have a: "all_absent n ?g2"
    by (rule all_absent_fixed[OF m])
  show ?thesis
    using m a
    by (simp add: makeChooser_def BFSGuide_new_def BFSChooser_new_def BFSChooser_dtor_def
        vector_at_def set_child_def)
qed

text \<open>
  C3.  A call of \<^verbatim>\<open>choose(n)\<close> or \<^verbatim>\<open>chooseWeighted\<close> that arrives at a node
  seen before with another arity than the node's \<^verbatim>\<open>Children.size()\<close> does
  not return: the BFS chooser prints its message and calls \<^verbatim>\<open>exit(-1)\<close>, the
  sampler's \<^verbatim>\<open>visit\<close> fails its assertion.
\<close>

theorem arity_mismatch_fatal:
  "(Choosing g \<and> Current c < length (Heap g) \<and>
    vector_at (Children (Heap g ! Current c)) (LastChoice c) = Inr (Some N) \<and>
    N < length (Heap g) \<and> n \<noteq> int (length (Children (Heap g ! N)))
    \<longrightarrow> BFS_choose L g c n = Inl ExitCalled) \<and>
   (Choosing g \<and> Current c < length (Heap g) \<and>
    vector_at (Children (Heap g ! Current c)) (LastChoice c) = Inr (Some N) \<and>
    N < length (Heap g) \<and> int (length Probs) \<noteq> int (length (Children (Heap g ! N)))
    \<longrightarrow> BFS_chooseWeighted L g c Probs = Inl ExitCalled) \<and>
   (Trail t \<noteq> [] \<and> last (Trail t) < length (WHeap w) \<and>
    visited (WHeap w ! last (Trail t)) \<and>
    n \<noteq> int (length (WChildren (WHeap w ! last (Trail t))))
    \<longrightarrow> WS_choose1 L w t n = Inl AssertFailed) \<and>
   (Trail t \<noteq> [] \<and> last (Trail t) < length (WHeap w) \<and>
    visited (WHeap w ! last (Trail t)) \<and>
    int (length Probs) \<noteq> int (length (WChildren (WHeap w ! last (Trail t))))
    \<longrightarrow> WS_chooseWeighted L w t Probs = Inl AssertFailed)"
  by (simp add: BFS_choose_def BFS_chooseWeighted_def chooseInternal_def
      WS_choose1_def WS_chooseWeighted_def WS_choose_def visit_def)

theorem arity_mismatch_fatal_witness:
  "Choosing (bfs_example_guide\<lparr> MaxSavedLevel := 0, Choosing := True \<rparr>) \<and>
   vector_at (Children (Heap bfs_example_guide ! Current bfs_example_chooser))
     (LastChoice bfs_example_chooser) = Inr (Some 1) \<and>
   length (Children (Heap bfs_example_guide ! 1)) = 3 \<and>
   BFS_choose counter_lib (bfs_example_guide\<lparr> MaxSavedLevel := 0, Choosing := True \<rparr>)
      bfs_example_chooser 4 = Inl ExitCalled \<and>
   BFS_chooseWeighted counter_lib (bfs_example_guide\<lparr> MaxSavedLevel := 0, Choosing := True \<rparr>)
      bfs_example_chooser [1, 1, 1, 1] = Inl ExitCalled \<and>
   visited (WHeap ws_example_guide ! last (Trail (WS_makeChooser ws_example_guide))) \<and>
   length (WChildren (WHeap ws_example_guide ! last (Trail (WS_makeChooser ws_example_guide)))) = 2 \<and>
   WS_choose1 counter_lib ws_example_guide (WS_makeChooser ws_example_guide) 4
     = Inl AssertFailed \<and>
   WS_chooseWeighted counter_lib ws_example_guide (WS_makeChooser ws_example_guide) [1, 1, 1, 1]
     = Inl AssertFailed"
proof -
  let ?g = "bfs_example_guide\<lparr> MaxSavedLevel := 0, Choosing := True \<rparr>"
  let ?c = bfs_example_chooser
  have h: "Choosing ?g" "Current ?c < length (Heap ?g)"
    "vector_at (Children (Heap ?g ! Current ?c)) (LastChoice ?c) = Inr (Some 1)"
    "1 < length (Heap ?g)" "(4::int) \<noteq> int (length (Children (Heap ?g ! 1)))"
    "int (length [1::int, 1, 1, 1]) \<noteq> int (length (Children (Heap ?g ! 1)))"
    "length (Children (Heap bfs_example_guide ! 1)) = 3"
    by (simp_all add: bfs_example_guide_def bfs_example_chooser_def vector_at_def)
  let ?w = ws_example_guide
  let ?t = "WS_makeChooser ws_example_guide"
  have k: "Trail ?t \<noteq> []" "last (Trail ?t) < length (WHeap ?w)"
    "visited (WHeap ?w ! last (Trail ?t))"
    "(4::int) \<noteq> int (length (WChildren (WHeap ?w ! last (Trail ?t))))"
    "int (length [1::int, 1, 1, 1]) \<noteq> int (length (WChildren (WHeap ?w ! last (Trail ?t))))"
    "length (WChildren (WHeap ?w ! last (Trail ?t))) = 2"
    by (simp_all add: ws_example_guide_def WS_makeChooser_def)
  show ?thesis
    using arity_mismatch_fatal[of ?g ?c 1 4 counter_lib "[1, 1, 1, 1]" ?t ?w] h k
    by simp
qed

text \<open>
  C4 (the code departs from the claim).  A node first visited without
  weights keeps its default-constructed sampler, whose \<^verbatim>\<open>probabilities()\<close>
  is the one-element vector \<open>[1]\<close>; the test
  \<^verbatim>\<open>probabilities().size() > 0\<close> of \<^verbatim>\<open>weight\<close> therefore always succeeds
  and the branch returning \<open>1/n\<close> is never taken.  For a node of arity 2,
  \<^verbatim>\<open>weight(0)\<close> is 1, not 1/2, and \<^verbatim>\<open>weight(1)\<close> reads past the end of
  the vector.
\<close>

theorem weight_without_weights:
  "\<exists>nd. visit WNode_new 2 [] = Inr nd \<and> length (WChildren nd) = 2 \<and>
        weight nd 0 = Inr 1 \<and> weight nd 1 = Inl UndefinedBehaviour"
  by (simp add: visit_def WNode_new_def weight_def discrete_distribution_default_def resize_def)

text \<open>
  C5 (the code departs from the claim).  For the same reason the test
  \<^verbatim>\<open>probabilities().size() == 0\<close> of \<^verbatim>\<open>choose\<close> never succeeds: at a node
  first visited without weights the initial sample is drawn from the
  default-constructed sampler, which delivers 0 whatever the generator
  state, and not uniformly from \<open>[0, n)\<close>.  On a fresh guide \<^verbatim>\<open>choose(n)\<close>
  returns 0.
\<close>

theorem initial_sample_without_weights:
  assumes "lib_ok L" "0 < n"
  shows "(\<exists>nd r'. visit WNode_new n [] = Inr nd \<and> initial_sample L nd n r = Inr (0, r')) \<and>
         (\<exists>g' c'. WS_choose1 L (WeightedSamplerGuide_new L Seed)
                     (WS_makeChooser (WeightedSamplerGuide_new L Seed)) n = Inr (0, g', c'))"
proof -
  obtain k r' where d: "discrete_draw L discrete_distribution_default r = (k, r')"
    by (cases "discrete_draw L discrete_distribution_default r")
  with discrete_draw_default[OF assms(1), of r] have k: "k = 0" by simp
  obtain k2 r2 where d2:
    "discrete_draw L discrete_distribution_default (mt19937_64 L Seed) = (k2, r2)"
    by (cases "discrete_draw L discrete_distribution_default (mt19937_64 L Seed)")
  with discrete_draw_default[OF assms(1), of "mt19937_64 L Seed"] have k2: "k2 = 0" by simp
  have a: "\<exists>nd r'. visit WNode_new n [] = Inr nd \<and> initial_sample L nd n r = Inr (0, r')"
    using d k assms(2)
    by (simp add: visit_def WNode_new_def initial_sample_def discrete_distribution_default_def)
  have b: "\<exists>g' c'. WS_choose1 L (WeightedSamplerGuide_new L Seed)
                     (WS_makeChooser (WeightedSamplerGuide_new L Seed)) n = Inr (0, g', c')"
    using d2 k2 assms(2)
    by (simp add: WS_choose1_def WS_choose_def WeightedSamplerGuide_new_def WS_makeChooser_def
        visit_def WNode_new_def initial_sample_def resize_def discrete_distribution_default_def)
  from a b show ?thesis by blast
qed

theorem initial_sample_without_weights_witness:
  "lib_ok counter_lib \<and> (0::int) < 2 \<and>
   (\<exists>nd r'. visit WNode_new 2 [] = Inr nd \<and> initial_sample counter_lib nd 2 1 = Inr (0, r')) \<and>
   uniform_int_distribution counter_lib 0 (2 - 1) 1 = Inr (1, 2)"
proof -
  have u: "uniform_int_distribution counter_lib 0 (2 - 1) 1 = Inr (1, 2)"
    by (simp add: uniform_int_distribution_def counter_lib_def)
  show ?thesis
    using initial_sample_without_weights[OF lib_ok_counter_lib, of 2 1] u lib_ok_counter_lib
    by simp
qed

text \<open>
  C1 (the code departs from the claim).  \<^verbatim>\<open>choose\<close> takes a \<^verbatim>\<open>long\<close>, but
  the BFS and default choosers draw from
  \<^verbatim>\<open>uniform_int_distribution<int>(0, Choices - 1)\<close>, which narrows
  \<open>n - 1\<close> to \<^verbatim>\<open>int\<close>.  For every \<open>n > 0\<close> whose narrowed \<open>n - 1\<close> is negative
  (\<open>n = 2 ^ 32\<close> gives \<open>- 1\<close>) the bounds of the distribution are out of order
  and the draw is undefined: the default chooser's \<^verbatim>\<open>choose(n)\<close>, and the BFS
  chooser's on the first call of the first traversal, yield no value in
  \<open>[0, n)\<close>.  The sampler draws from
  \<^verbatim>\<open>uniform_int_distribution<long>\<close>.
\<close>

theorem choose_narrowing_undefined:
  assumes "0 < n" "to_int (n - 1) < 0"
  shows "Default_choose L d n = Inl UndefinedBehaviour \<and>
         (\<exists>c g. makeChooser (BFSGuide_new L Seed) = Some (Inr (Some c, g)) \<and>
                 BFS_choose L g c n = Inl UndefinedBehaviour)"
proof
  from assms(2) show "Default_choose L d n = Inl UndefinedBehaviour"
    by (simp add: Default_choose_def uniform_int_distribution_def)
next
  let ?g = "(BFSGuide_new L Seed)\<lparr> Started := True, Choosing := True \<rparr>"
  let ?c = "BFSChooser_new (BFSGuide_new L Seed)"
  have m: "makeChooser (BFSGuide_new L Seed) = Some (Inr (Some ?c, ?g))"
    by (simp add: makeChooser_def BFSGuide_new_def)
  have "BFS_choose L ?g ?c n = Inl UndefinedBehaviour"
    using assms
    by (simp add: BFS_choose_def chooseInternal_def BFSGuide_new_def BFSChooser_new_def
        vector_at_def uniform_int_distribution_def Let_def)
  with m show "\<exists>c g. makeChooser (BFSGuide_new L Seed) = Some (Inr (Some c, g)) \<and>
                 BFS_choose L g c n = Inl UndefinedBehaviour" by blast
qed


theorem choose_narrowing_undefined_witness:
  "(0::int) < 2 ^ 32 \<and> to_int (2 ^ 32 - 1) = - 1 \<and> to_int (2 ^ 32 - 1) < 0 \<and>
   Default_choose counter_lib (DefaultGuide_new counter_lib 0) (2 ^ 32) = Inl UndefinedBehaviour \<and>
   (\<exists>c g. makeChooser (BFSGuide_new counter_lib 0) = Some (Inr (Some c, g)) \<and>
           BFS_choose counter_lib g c (2 ^ 32) = Inl UndefinedBehaviour)"
proof -
  have t: "to_int (2 ^ 32 - 1) = - 1" by (simp add: to_int_def)
  then have h: "(0::int) < 2 ^ 32" "to_int (2 ^ 32 - 1) < 0" by simp_all
  from choose_narrowing_undefined[OF h, of counter_lib "DefaultGuide_new counter_lib 0" 0] t h
  show ?thesis by blast
qed

text \<open>
  C7 (as the code has it).  When \<^verbatim>\<open>makeChooser\<close> plans a traversal from a
  popped frontier node with two or more null child slots, the choice it saves
  for that node (the first one pushed) is the highest null index: the scan
  runs over all slots and overwrites \<^verbatim>\<open>Next\<close> at each null one.
\<close>

theorem planned_choice_highest_untaken:
  assumes "Started g"
    and "removeHead (PendingPaths g) = ((Some N, l), q)"
    and "makeChooser g = Some (Inr (Some c, g'))"
    and "2 \<le> length (untaken (Children (Heap g ! N)))"
  shows "SavedChoices c \<noteq> [] \<and>
         hd (SavedChoices c) = int (last (untaken (Children (Heap g ! N))))"
proof -
  from assms(1-3) obtain q' saved where
    w: "walk_up (Heap g) (Root g) l N None q [] = Some (Inr (q', saved))"
    and c: "c = (BFSChooser_new g)\<lparr> SavedChoices := saved \<rparr>"
    by (auto simp: makeChooser_def split: if_splits option.splits sum.splits)
  from walk_up_Inr[OF w] obtain Next q1 p where
    lb: "loop_body (Heap g) l N None q = Inr (Next, q1)"
    and r: "if p \<noteq> Root g
            then walk_up (Heap g) (Root g) l p (Some N) q1 ([] @ [Next]) = Some (Inr (q', saved))
            else (q', saved) = (q1, [] @ [Next])"
    by blast
  from loop_body_Inr[OF lb] have nx: "Next = int (last (untaken (Children (Heap g ! N))))"
    by simp
  have "\<exists>ys. saved = [Next] @ ys"
  proof (cases "p \<noteq> Root g")
    case True
    with r have "walk_up (Heap g) (Root g) l p (Some N) q1 [Next] = Some (Inr (q', saved))"
      by simp
    from walk_up_saved[OF this] show ?thesis by blast
  next
    case False
    with r show ?thesis by simp
  qed
  with nx c show ?thesis by auto
qed


theorem planned_choice_highest_untaken_witness:
  "Started bfs_example_guide \<and>
   removeHead (PendingPaths bfs_example_guide) = ((Some 1, 0), []) \<and>
   makeChooser bfs_example_guide =
     Some (Inr (Some bfs_example_chooser,
                bfs_example_guide\<lparr> MaxSavedLevel := 0, Choosing := True \<rparr>)) \<and>
   2 \<le> length (untaken (Children (Heap bfs_example_guide ! 1))) \<and>
   hd (SavedChoices bfs_example_chooser) = 2 \<and>
   last (untaken (Children (Heap bfs_example_guide ! 1))) = 2"
proof -
  have u: "untaken (Children (Heap bfs_example_guide ! 1)) = [1, 2]"
    by (simp add: bfs_example_guide_def untaken_Cons untaken_Nil)
  have s: "Started bfs_example_guide"
    and r: "removeHead (PendingPaths bfs_example_guide) = ((Some 1, 0), [])"
    by (simp_all add: bfs_example_guide_def removeHead_def)
  have l: "2 \<le> length (untaken (Children (Heap bfs_example_guide ! 1)))"
    using u by simp
  from planned_choice_highest_untaken[OF s r bfs_example_makeChooser l] u s r l
    bfs_example_makeChooser
  show ?thesis by simp
qed


text \<open>
  C7 as claimed fails: at the example guide the popped node has the null
  slots 1 and 2, and the saved choice is 2, not the lowest index 1.
\<close>

theorem lowest_untaken_counterexample:
  "Started bfs_example_guide \<and>
   removeHead (PendingPaths bfs_example_guide) = ((Some 1, 0), []) \<and>
   untaken (Children (Heap bfs_example_guide ! 1)) = [1, 2] \<and>
   makeChooser bfs_example_guide =
     Some (Inr (Some bfs_example_chooser,
                bfs_example_guide\<lparr> MaxSavedLevel := 0, Choosing := True \<rparr>)) \<and>
   SavedChoices bfs_example_chooser = [2] \<and>
   hd (SavedChoices bfs_example_chooser)
     \<noteq> int (hd (untaken (Children (Heap bfs_example_guide ! 1))))"
proof -
  have u: "untaken (Children (Heap bfs_example_guide ! 1)) = [1, 2]"
    by (simp add: bfs_example_guide_def untaken_Cons untaken_Nil)
  have "Started bfs_example_guide"
    "removeHead (PendingPaths bfs_example_guide) = ((Some 1, 0), [])"
    "SavedChoices bfs_example_chooser = [2]"
    by (simp_all add: bfs_example_guide_def removeHead_def bfs_example_chooser_def)
  with u bfs_example_makeChooser show ?thesis by simp
qed


text \<open>
  C8 (as the code has it).  In every state of a guide in use, so after every
  chooser disposal, \<^verbatim>\<open>TotalNodes\<close> is the number of nodes reachable from the
  root other than the root itself: the root allocated by the constructor is
  not counted.
\<close>

theorem totalNodes_excludes_root:
  "bfs_reach L g co \<Longrightarrow>
     int (card {a. reachable (Heap g) (Root g) a}) = TotalNodes g + 1 \<and>
     int (card {a. reachable (Heap g) (Root g) a \<and> a \<noteq> Root g}) = TotalNodes g"
proof -
  assume "bfs_reach L g co"
  from bfs_reach_inv[OF this] have ok: "heap_ok (Heap g) (Root g)"
    and tn: "TotalNodes g + 1 = int (length (Heap g))"
    by (simp_all add: bfs_inv_def)
  from ok have R: "Root g < length (Heap g)" unfolding heap_ok_def by blast
  have 1: "{a. reachable (Heap g) (Root g) a} = {..<length (Heap g)}"
    by (rule reachable_set[OF ok])
  then have "{a. reachable (Heap g) (Root g) a \<and> a \<noteq> Root g} = {..<length (Heap g)} - {Root g}"
    by auto
  with R have "card {a. reachable (Heap g) (Root g) a \<and> a \<noteq> Root g} = length (Heap g) - 1"
    by simp
  with 1 tn R show ?thesis by simp
qed

theorem totalNodes_excludes_root_witness:
  "bfs_reach counter_lib bfs_example_guide None \<and>
   int (card {a. reachable (Heap bfs_example_guide) (Root bfs_example_guide) a}) = 3 \<and>
   int (card {a. reachable (Heap bfs_example_guide) (Root bfs_example_guide) a \<and>
                 a \<noteq> Root bfs_example_guide}) = 2 \<and>
   TotalNodes bfs_example_guide = 2"
  using totalNodes_excludes_root[OF bfs_example_reach] bfs_example_reach
  by (simp add: bfs_example_guide_def)

text \<open>
  C8 as claimed fails: after a bootstrap traversal without choices the root
  and one leaf are reachable, and \<^verbatim>\<open>TotalNodes\<close> is 1.
\<close>

theorem totalNodes_with_root_counterexample:
  "bfs_reach counter_lib bfs_leaf_guide None \<and>
   TotalNodes bfs_leaf_guide = 1 \<and>
   card {a. reachable (Heap bfs_leaf_guide) (Root bfs_leaf_guide) a} = 2"
proof -
  have "heap_ok (Heap bfs_leaf_guide) (Root bfs_leaf_guide)"
    using bfs_reach_inv[OF bfs_leaf_guide_reach] by (simp add: bfs_inv_def)
  from reachable_set[OF this]
  have "card {a. reachable (Heap bfs_leaf_guide) (Root bfs_leaf_guide) a} = 2"
    by (simp add: bfs_leaf_guide_def)
  with bfs_leaf_guide_reach show ?thesis by (simp add: bfs_leaf_guide_def)
qed

text \<open>
  C6 (the code departs from the claim).  The destructor's loop calls
  \<^verbatim>\<open>weight(i)\<close> for every child slot of a trail node, null or not.  At a
  node first visited without weights the sampler is the default one, with one
  probability, so for a node of two slots or more \<^verbatim>\<open>weight(1)\<close> reads
  outside the probabilities and the behaviour is undefined.  Whenever such a
  node is on the trail above the deepest node, as after any traversal that
  made an unweighted \<^verbatim>\<open>choose(n)\<close> with \<open>n \<ge> 2\<close> or a \<^verbatim>\<open>flip\<close>, the
  destructor does not complete: no size estimates and no empty trail result.
\<close>

theorem trail_collapse_undefined:
  assumes "a \<in> set (butlast (Trail c))" "a < length (WHeap g)"
    and "visited (WHeap g ! a)"
    and "ChildSampler (WHeap g ! a) = discrete_distribution_default"
    and "2 \<le> length (WChildren (WHeap g ! a))"
  shows "\<exists>e. WeightedSamplerChooser_dtor g c = Inl e"
proof (cases "Trail c = [] \<or> \<not> last (Trail c) < length (WHeap g)")
  case True
  then show ?thesis by (simp add: WeightedSamplerChooser_dtor_def)
next
  case False
  let ?d = "last (Trail c)"
  let ?h0 = "(WHeap g)[?d := (WHeap g ! ?d)\<lparr> SizeEstimate := Some 1 \<rparr>]"
  have same: "visited (?h0 ! a) = visited (WHeap g ! a) \<and>
              ChildSampler (?h0 ! a) = ChildSampler (WHeap g ! a) \<and>
              WChildren (?h0 ! a) = WChildren (WHeap g ! a)"
  proof (cases "a = ?d")
    case True
    with assms(2) have "?h0 ! a = (WHeap g ! a)\<lparr> SizeEstimate := Some 1 \<rparr>"
      by (simp only: nth_list_update_eq)
    then show ?thesis by simp
  next
    case False
    then have "?h0 ! a = WHeap g ! a" by (simp only: nth_list_update_neq not_sym)
    then show ?thesis by simp
  qed
  have 1: "a \<in> set (rev (butlast (Trail c)))" using assms(1) by simp
  have 2: "a < length ?h0" using assms(2) by simp
  have 3: "visited (?h0 ! a)" using same assms(3) by simp
  have 4: "ChildSampler (?h0 ! a) = discrete_distribution_default" using same assms(4) by simp
  have 5: "2 \<le> length (WChildren (?h0 ! a))" using same assms(5) by simp
  from collapse_unweighted[OF 1 2 3 4 5] obtain e where
    "collapse ?h0 (rev (butlast (Trail c))) = Inl e" by blast
  with False show ?thesis by (simp add: WeightedSamplerChooser_dtor_def)
qed


theorem trail_collapse_undefined_witness:
  "WS_flip counter_lib (WeightedSamplerGuide_new counter_lib 0)
     (WS_makeChooser (WeightedSamplerGuide_new counter_lib 0))
     = Inr (False, ws_flip_guide, \<lparr> Trail = [0, 1] \<rparr>) \<and>
   0 \<in> set (butlast (Trail \<lparr> Trail = [0, 1] \<rparr>)) \<and>
   0 < length (WHeap ws_flip_guide) \<and>
   visited (WHeap ws_flip_guide ! 0) \<and>
   ChildSampler (WHeap ws_flip_guide ! 0) = discrete_distribution_default \<and>
   2 \<le> length (WChildren (WHeap ws_flip_guide ! 0)) \<and>
   (\<exists>e. WeightedSamplerChooser_dtor ws_flip_guide \<lparr> Trail = [0, 1] \<rparr> = Inl e) \<and>
   WeightedSamplerChooser_dtor ws_flip_guide \<lparr> Trail = [0, 1] \<rparr> = Inl UndefinedBehaviour"
proof -
  have h: "0 \<in> set (butlast (Trail \<lparr> Trail = [0, 1::nat] \<rparr>))"
    "0 < length (WHeap ws_flip_guide)"
    "visited (WHeap ws_flip_guide ! 0)"
    "ChildSampler (WHeap ws_flip_guide ! 0) = discrete_distribution_default"
    "2 \<le> length (WChildren (WHeap ws_flip_guide ! 0))"
    by (simp_all add: ws_flip_guide_def)
  have d: "WeightedSamplerChooser_dtor ws_flip_guide \<lparr> Trail = [0, 1] \<rparr> = Inl UndefinedBehaviour"
    by (simp add: WeightedSamplerChooser_dtor_def ws_flip_guide_def WNode_new_def weight_def
        discrete_distribution_default_def)
  from trail_collapse_undefined[OF h] h d ws_flip_run show ?thesis by blast
qed




end
